theory Spec2Isabelle
  imports Complex_Main "HOL-Library.Char_ord" "HOL-Library.List_Lexorder"
begin

section \<open>Metadata validators (idr\_core/config.py)\<close>

text \<open>
  Values read from the metadata tables reach the validators as Python objects.  A float is
  either a finite number (kept exactly, as a rational), an infinity or a NaN.
\<close>

datatype pyfloat = Finite rat | PosInf | NegInf | NaN

datatype pyval = PyNone | PyBool bool | PyInt int | PyFloat pyfloat | PyStr string

text \<open>
  The exceptions of the pipeline.  A \<open>ValueError\<close> or \<open>RuntimeError\<close> keeps the field
  name (empty where the source gives none) and the content of its message;
  \<open>OverflowError\<close> is the exception of the built-in conversions that the validators'
  \<open>except (TypeError, ValueError)\<close> clause does not catch.
\<close>

datatype message =
  CannotBeEmpty | InvalidInteger pyval | InvalidFloat pyval | UnsafeSql string
  | InvalidEnum "string option" | ConcurrentRun string | NoActiveSources | SourceNotFound string

datatype error = ValueError string message | OverflowError | RuntimeError string message

text \<open>What the built-in conversions raise.\<close>

datatype builtin_error = BTypeError | BValueError | BOverflowError

text \<open>
  Python's \<open>int(value)\<close>.  The parser of string literals is an interpreter built-in and is
  taken as the parameter \<open>str_to_int\<close>.
\<close>

definition trunc_rat :: "rat \<Rightarrow> int" where
  "trunc_rat q = (if 0 \<le> q then \<lfloor>q\<rfloor> else \<lceil>q\<rceil>)"

fun py_int :: "(string \<Rightarrow> int option) \<Rightarrow> pyval \<Rightarrow> builtin_error + int" where
  "py_int str_to_int PyNone = Inl BTypeError"
| "py_int str_to_int (PyBool b) = Inr (if b then 1 else 0)"
| "py_int str_to_int (PyInt i) = Inr i"
| "py_int str_to_int (PyFloat (Finite q)) = Inr (trunc_rat q)"
| "py_int str_to_int (PyFloat NaN) = Inl BValueError"
| "py_int str_to_int (PyFloat PosInf) = Inl BOverflowError"
| "py_int str_to_int (PyFloat NegInf) = Inl BOverflowError"
| "py_int str_to_int (PyStr s) =
     (case str_to_int s of None \<Rightarrow> Inl BValueError | Some i \<Rightarrow> Inr i)"

text \<open>
  Python's \<open>float(value)\<close>.  The string parser and the rounding of an integer to the
  nearest double (\<open>None\<close> when the integer is too large, an \<open>OverflowError\<close>) are built-ins,
  taken as the parameters \<open>str_to_float\<close> and \<open>int_to_float\<close>.
\<close>

fun py_float ::
  "(string \<Rightarrow> pyfloat option) \<Rightarrow> (int \<Rightarrow> pyfloat option) \<Rightarrow> pyval \<Rightarrow> builtin_error + pyfloat"
where
  "py_float str_to_float int_to_float PyNone = Inl BTypeError"
| "py_float str_to_float int_to_float (PyBool b) = Inr (Finite (if b then 1 else 0))"
| "py_float str_to_float int_to_float (PyInt i) =
     (case int_to_float i of None \<Rightarrow> Inl BOverflowError | Some f \<Rightarrow> Inr f)"
| "py_float str_to_float int_to_float (PyFloat f) = Inr f"
| "py_float str_to_float int_to_float (PyStr s) =
     (case str_to_float s of None \<Rightarrow> Inl BValueError | Some f \<Rightarrow> Inr f)"

text \<open>\<open>validate_integer\<close>: \<open>int(value)\<close>, with TypeError and ValueError turned into ValueError.\<close>

definition validate_integer ::
  "(string \<Rightarrow> int option) \<Rightarrow> pyval \<Rightarrow> string \<Rightarrow> error + int" where
  "validate_integer str_to_int v name =
     (case py_int str_to_int v of
        Inr result \<Rightarrow> Inr result
      | Inl BOverflowError \<Rightarrow> Inl OverflowError
      | Inl _ \<Rightarrow> Inl (ValueError name (InvalidInteger v)))"

text \<open>The comparison \<open>-1e15 < result < 1e15\<close>; every comparison with a NaN is false.\<close>

fun in_sanity_bound :: "pyfloat \<Rightarrow> bool" where
  "in_sanity_bound (Finite q) = (- (10 ^ 15) < q \<and> q < 10 ^ 15)"
| "in_sanity_bound PosInf = False"
| "in_sanity_bound NegInf = False"
| "in_sanity_bound NaN = False"

text \<open>
  \<open>validate_float\<close>: the out-of-range ValueError is raised inside the \<open>try\<close> block, so the
  \<open>except\<close> clause replaces it by the "Invalid float" ValueError like the other two.
\<close>

definition validate_float ::
  "(string \<Rightarrow> pyfloat option) \<Rightarrow> (int \<Rightarrow> pyfloat option) \<Rightarrow> pyval \<Rightarrow> string \<Rightarrow> error + pyfloat"
where
  "validate_float str_to_float int_to_float v name =
     (case py_float str_to_float int_to_float v of
        Inr result \<Rightarrow>
          if \<not> in_sanity_bound result then Inl (ValueError name (InvalidFloat v))
          else Inr result
      | Inl BOverflowError \<Rightarrow> Inl OverflowError
      | Inl _ \<Rightarrow> Inl (ValueError name (InvalidFloat v)))"


section \<open>The expression validator (idr\_core/config.py, validate\_sql\_expr)\<close>

text \<open>
  A string is a list of characters with code points U+0000 to U+00FF.  The classes below are
  the ones Python's \<open>re\<close> module uses on such characters for \<open>\s\<close> and \<open>\w\<close> in a
  \<open>str\<close> pattern.
\<close>

definition is_space :: "char \<Rightarrow> bool" where
  "is_space c = (of_char c \<in> set [9, 10, 11, 12, 13, 28, 29, 30, 31, 32, 133, 160 :: nat])"

definition is_word :: "char \<Rightarrow> bool" where
  "is_word c =
     (let n = of_char c :: nat in
        (48 \<le> n \<and> n \<le> 57) \<or> (65 \<le> n \<and> n \<le> 90) \<or> n = 95 \<or> (97 \<le> n \<and> n \<le> 122)
        \<or> n = 170 \<or> n = 178 \<or> n = 179 \<or> n = 181 \<or> n = 185 \<or> n = 186
        \<or> (188 \<le> n \<and> n \<le> 190) \<or> (192 \<le> n \<and> n \<le> 214) \<or> (216 \<le> n \<and> n \<le> 246)
        \<or> (248 \<le> n \<and> n \<le> 255))"

text \<open>Upper and lower case of the ASCII letters; every other character is left as it is.\<close>

definition ascii_upper :: "char \<Rightarrow> char" where
  "ascii_upper c =
     (let n = of_char c :: nat in if 97 \<le> n \<and> n \<le> 122 then char_of (n - 32) else c)"

definition ascii_lower :: "char \<Rightarrow> char" where
  "ascii_lower c =
     (let n = of_char c :: nat in if 65 \<le> n \<and> n \<le> 90 then char_of (n + 32) else c)"

text \<open>
  The matcher threads the character before the current position (\<open>None\<close> at the start of
  the string), which is what \<open>\b\<close> looks at.  \<open>word_boundary\<close> is \<open>\b\<close>: exactly one of the
  two sides is a word character.
\<close>

definition word_next :: "string \<Rightarrow> bool" where
  "word_next s = (case s of [] \<Rightarrow> False | c # _ \<Rightarrow> is_word c)"

definition word_prev :: "char option \<Rightarrow> bool" where
  "word_prev p = (case p of None \<Rightarrow> False | Some c \<Rightarrow> is_word c)"

definition word_boundary :: "char option \<Rightarrow> string \<Rightarrow> bool" where
  "word_boundary p s = (word_prev p \<noteq> word_next s)"

text \<open>\<open>$\<close> without MULTILINE: the end of the string, or just before a final newline.\<close>

definition at_end :: "string \<Rightarrow> bool" where
  "at_end s = (s = [] \<or> s = [char_of (10::nat)])"

text \<open>\<open>\s*\<close> followed by the rest \<open>k\<close> of the pattern: stop here, or take one more space.\<close>

fun ws_star :: "(char option \<Rightarrow> string \<Rightarrow> bool) \<Rightarrow> char option \<Rightarrow> string \<Rightarrow> bool" where
  "ws_star k p [] = k p []"
| "ws_star k p (c # cs) = (k p (c # cs) \<or> (is_space c \<and> ws_star k (Some c) cs))"

text \<open>
  A literal keyword under IGNORECASE.  The pattern's letters are upper-case ASCII, so an
  input character matches when its upper case is the pattern's letter.  The result is the
  last character consumed and the rest of the input.
\<close>

fun ci_match :: "string \<Rightarrow> char option \<Rightarrow> string \<Rightarrow> (char option \<times> string) option" where
  "ci_match [] p s = Some (p, s)"
| "ci_match (k # ks) p [] = None"
| "ci_match (k # ks) p (c # cs) = (if ascii_upper c = k then ci_match ks (Some c) cs else None)"

definition sql_keywords :: "string list" where
  "sql_keywords = [''INSERT'', ''UPDATE'', ''DELETE'', ''DROP'', ''CREATE'', ''ALTER'', ''GRANT'',
     ''REVOKE'', ''TRUNCATE'', ''EXEC'', ''EXECUTE'']"

definition union_tails :: "string list" where
  "union_tails = [''ALL'', ''SELECT'']"

text \<open>A keyword followed by the closing \<open>\b\<close>.\<close>

definition keyword_then_boundary :: "string \<Rightarrow> char option \<Rightarrow> string \<Rightarrow> bool" where
  "keyword_then_boundary kw p s =
     (case ci_match kw p s of None \<Rightarrow> False | Some (p', r) \<Rightarrow> word_boundary p' r)"

text \<open>The alternatives of the pattern, each tried at one position.\<close>

definition semicolon_alt :: "string \<Rightarrow> bool" where
  "semicolon_alt s =
     (case s of
        [] \<Rightarrow> False
      | c # rest \<Rightarrow> c = CHR '';'' \<and>
          (ws_star (\<lambda>p r. at_end r) (Some c) rest \<or> ws_star (\<lambda>p r. word_next r) (Some c) rest))"

definition dash_alt :: "string \<Rightarrow> bool" where
  "dash_alt s =
     (case s of a # b # c # _ \<Rightarrow> a = CHR ''-'' \<and> b = CHR ''-'' \<and> is_space c | _ \<Rightarrow> False)"

definition comment_alt :: "string \<Rightarrow> bool" where
  "comment_alt s = (take 2 s = ''/*'' \<or> take 2 s = ''*/'')"

definition union_alt :: "char option \<Rightarrow> string \<Rightarrow> bool" where
  "union_alt p s =
     (case ci_match ''UNION'' p s of
        None \<Rightarrow> False
      | Some (p', r) \<Rightarrow>
          (case r of
             [] \<Rightarrow> False
           | c # r' \<Rightarrow> is_space c \<and>
               ws_star (\<lambda>q t. list_ex (\<lambda>tail. keyword_then_boundary tail q t) union_tails)
                 (Some c) r'))"

definition keyword_alt :: "char option \<Rightarrow> string \<Rightarrow> bool" where
  "keyword_alt p s =
     (word_boundary p s \<and>
      (list_ex (\<lambda>kw. keyword_then_boundary kw p s) sql_keywords \<or> union_alt p s))"

definition match_at :: "char option \<Rightarrow> string \<Rightarrow> bool" where
  "match_at p s = (semicolon_alt s \<or> dash_alt s \<or> comment_alt s \<or> keyword_alt p s)"

text \<open>\<open>_DANGEROUS_SQL_RE.search\<close>: the pattern matches at some position of the string.\<close>

fun search_from :: "char option \<Rightarrow> string \<Rightarrow> bool" where
  "search_from p [] = match_at p []"
| "search_from p (c # cs) = (match_at p (c # cs) \<or> search_from (Some c) cs)"

definition dangerous_sql_search :: "string \<Rightarrow> bool" where
  "dangerous_sql_search v = search_from None v"

definition validate_sql_expr :: "string \<Rightarrow> string \<Rightarrow> error + string" where
  "validate_sql_expr v name =
     (if v = [] then Inl (ValueError name CannotBeEmpty)
      else if dangerous_sql_search v then Inl (ValueError name (UnsafeSql v))
      else Inr v)"

section \<open>Identifier canonicalization (idr\_core/stages/base.py, extraction.py)\<close>

text \<open>
  The \<open>enum\<close> branch of \<open>_validate_metadata_value\<close>, for the rule's \<open>canonicalize\<close> column
  (a string or NULL): the upper-cased string, which must be one of the four allowed
  values; the ValueError is re-raised as a RuntimeError.
\<close>

definition CANONICALIZE_ENUM :: "string list" where
  "CANONICALIZE_ENUM = [''LOWERCASE'', ''UPPERCASE'', ''NONE'', '''']"

definition validate_enum :: "string option \<Rightarrow> string \<Rightarrow> error + string" where
  "validate_enum v field_name =
     (let str_val = (case v of None \<Rightarrow> '''' | Some s \<Rightarrow> if s = [] then '''' else map ascii_upper s)
      in if str_val \<notin> set CANONICALIZE_ENUM then Inl (RuntimeError field_name (InvalidEnum v))
         else Inr str_val)"

text \<open>
  \<open>extract_identifiers\<close> wraps the value expression in \<open>LOWER(...)\<close> for LOWERCASE, in
  \<open>UPPER(...)\<close> for UPPERCASE, and leaves it alone otherwise.  \<open>LOWER\<close> and \<open>UPPER\<close> are
  functions of the SQL engine, not of this repository: the model takes them as the
  parameters \<open>engine_lower\<close> and \<open>engine_upper\<close>, functions on the engine's strings,
  whatever their type \<open>'s\<close> is.  The mode is the string \<open>validate_enum\<close> returned.
\<close>

definition canonicalize_value :: "('s \<Rightarrow> 's) \<Rightarrow> ('s \<Rightarrow> 's) \<Rightarrow> string \<Rightarrow> 's \<Rightarrow> 's" where
  "canonicalize_value engine_lower engine_upper canonicalize v =
     (if canonicalize = ''LOWERCASE'' then engine_lower v
      else if canonicalize = ''UPPERCASE'' then engine_upper v
      else v)"




text \<open>An expression is refused as unsafe SQL, whatever the field name.\<close>

definition rejected_unsafe :: "string \<Rightarrow> bool" where
  "rejected_unsafe v = (\<forall>name. validate_sql_expr v name = Inl (ValueError name (UnsafeSql v)))"

text \<open>The character before a position that follows the prefix \<open>pre\<close>.\<close>

definition prev_of :: "string \<Rightarrow> char option" where
  "prev_of pre = (if pre = [] then None else Some (last pre))"

text \<open>The letters of a keyword of the pattern: upper-case ASCII.\<close>

definition upper_letters :: "string \<Rightarrow> bool" where
  "upper_letters kw = (\<forall>k\<in>set kw. 65 \<le> (of_char k :: nat) \<and> (of_char k :: nat) \<le> 90)"

section \<open>Edge construction (idr\_core/stages/graph.py, build\_edges)\<close>

text \<open>
  Tables are lists of rows (bags: the order of the rows carries no meaning).  Entity keys
  are strings compared by the engine's collation; the model takes any linearly ordered type
  for them.  \<open>identifiers_all\<close> has no NULLs: the extraction keeps only rows whose value
  \<open>IS NOT NULL\<close>, the entity key comes from an equality join, and \<open>max_group_size\<close> went
  through \<open>validate_integer\<close>.
\<close>

record 'k identifier_row =
  entity_key :: 'k
  identifier_type :: string
  identifier_value_norm :: string
  max_group_size :: int

record 'k edge_row =
  left_entity_key :: 'k
  right_entity_key :: 'k
  edge_identifier_type :: string
  edge_identifier_value_norm :: string

record 'k identifier_group =
  group_identifier_type :: string
  group_identifier_value_norm :: string
  group_size :: nat
  anchor_key :: 'k
  max_allowed :: int

record skipped_row =
  skipped_run_id :: string
  skipped_identifier_type :: string
  skipped_identifier_value_norm :: string
  skipped_group_size :: nat
  skipped_max_allowed :: int
  sample_entity_keys :: string
  reason :: string
  skipped_at :: int

text \<open>
  The part of the store \<open>build_edges\<close> reads and writes.  Whether the engine executes
  the audit INSERT into \<open>idr_out.skipped_identifier_groups\<close> or raises (the table is
  absent, lacks a column the INSERT names, has a column the INSERT cannot fill, refuses a
  row) is the engine's answer; the model takes it with the store, as
  \<open>skipped_insert_succeeds\<close>.
\<close>

record 'k graph_store =
  identifiers_all :: "'k identifier_row list"
  edges_new :: "'k edge_row list"
  skipped_insert_succeeds :: bool
  skipped_identifier_groups :: "skipped_row list"

definition group_key :: "'k identifier_row \<Rightarrow> string \<times> string" where
  "group_key i = (identifier_type i, identifier_value_norm i)"

text \<open>The rows of one group of \<open>GROUP BY identifier_type, identifier_value_norm\<close>.\<close>

definition group_rows :: "'k identifier_row list \<Rightarrow> string \<times> string \<Rightarrow> 'k identifier_row list" where
  "group_rows ids g = filter (\<lambda>i. group_key i = g) ids"

definition aggregate_group ::
  "'k::linorder identifier_row list \<Rightarrow> string \<times> string \<Rightarrow> 'k identifier_group" where
  "aggregate_group ids g =
     (let rows = group_rows ids g in
      \<lparr> group_identifier_type = fst g,
        group_identifier_value_norm = snd g,
        group_size = length rows,
        anchor_key = Min (set (map entity_key rows)),
        max_allowed = Max (set (map max_group_size rows)) \<rparr>)"

text \<open>The CTE \<open>identifier_groups\<close>: one row per group, \<open>HAVING COUNT(*) > 1\<close>.\<close>

definition identifier_groups :: "'k::linorder identifier_row list \<Rightarrow> 'k identifier_group list" where
  "identifier_groups ids =
     filter (\<lambda>g. group_size g > 1) (map (aggregate_group ids) (remdups (map group_key ids)))"

definition valid_groups :: "'k::linorder identifier_row list \<Rightarrow> 'k identifier_group list" where
  "valid_groups ids = filter (\<lambda>g. int (group_size g) \<le> max_allowed g) (identifier_groups ids)"

text \<open>
  The SELECT that fills \<open>idr_work.edges_new\<close>: every identifier row joined with its valid
  group, except the rows of the anchor itself.
\<close>

definition build_edges_query :: "'k::linorder identifier_row list \<Rightarrow> 'k edge_row list" where
  "build_edges_query ids =
     concat (map (\<lambda>i.
       map (\<lambda>g. \<lparr> left_entity_key = entity_key i,
                   right_entity_key = anchor_key g,
                   edge_identifier_type = identifier_type i,
                   edge_identifier_value_norm = identifier_value_norm i \<rparr>)
         (filter (\<lambda>g. identifier_type i = group_identifier_type g
                     \<and> identifier_value_norm i = group_identifier_value_norm g
                     \<and> entity_key i \<noteq> anchor_key g)
            (valid_groups ids))) ids)"

text \<open>
  The rows of the audit INSERT: the groups \<open>HAVING COUNT(*) > MAX(max_group_size)\<close> (here
  without the \<open>COUNT(*) > 1\<close> of the edge query).
\<close>

definition skipped_query ::
  "string \<Rightarrow> int \<Rightarrow> 'k::linorder identifier_row list \<Rightarrow> skipped_row list" where
  "skipped_query run_id now ids =
     map (\<lambda>g. \<lparr> skipped_run_id = run_id,
                 skipped_identifier_type = group_identifier_type g,
                 skipped_identifier_value_norm = group_identifier_value_norm g,
                 skipped_group_size = group_size g,
                 skipped_max_allowed = max_allowed g,
                 sample_entity_keys = '''',
                 reason = ''EXCEEDED_MAX_GROUP_SIZE'',
                 skipped_at = now \<rparr>)
       (filter (\<lambda>g. int (group_size g) > max_allowed g)
          (map (aggregate_group ids) (remdups (map group_key ids))))"

text \<open>
  \<open>build_edges\<close>, up to the count it returns.  The audit INSERT runs inside
  \<open>try: ... except Exception: pass\<close>: when the engine executes it the rows of
  \<open>skipped_query\<close> are appended to the audit table, and when it raises, for whatever
  reason, the exception is swallowed and the table is left as it was.  (The optional
  evidence INSERT that follows in the source writes only \<open>idr_out.edge_evidence\<close> and
  the warnings.)
\<close>

definition build_edges ::
  "string \<Rightarrow> int \<Rightarrow> 'k::linorder graph_store \<Rightarrow> nat \<times> 'k graph_store" where
  "build_edges run_id now st =
     (let st1 = st\<lparr> edges_new := build_edges_query (identifiers_all st) \<rparr>;
          st2 = (if skipped_insert_succeeds st1
                 then st1\<lparr> skipped_identifier_groups :=
                        skipped_identifier_groups st1 @ skipped_query run_id now (identifiers_all st1) \<rparr>
                 else st1);
          count = length (edges_new st2)
      in (count, st2))"

text \<open>The edges \<open>build_edges\<close> created for one identifier group.\<close>

definition edges_of_group :: "'k edge_row list \<Rightarrow> string \<times> string \<Rightarrow> 'k edge_row list" where
  "edges_of_group es g =
     filter (\<lambda>e. (edge_identifier_type e, edge_identifier_value_norm e) = g) es"

text \<open>
  A group passes into \<open>valid_groups\<close>: more than one row, and no more rows than allowed.
\<close>

definition group_valid :: "'k::linorder identifier_row list \<Rightarrow> string \<times> string \<Rightarrow> bool" where
  "group_valid ids g =
     (length (group_rows ids g) > 1
      \<and> int (length (group_rows ids g)) \<le> Max (set (map max_group_size (group_rows ids g))))"

text \<open>The edge from the entity of an identifier row to an anchor.\<close>

definition anchor_edge :: "'k \<Rightarrow> 'k identifier_row \<Rightarrow> 'k edge_row" where
  "anchor_edge a i =
     \<lparr> left_entity_key = entity_key i, right_entity_key = a,
       edge_identifier_type = identifier_type i,
       edge_identifier_value_norm = identifier_value_norm i \<rparr>"

section \<open>Label propagation (idr\_core/stages/graph.py, label\_propagation)\<close>

text \<open>
  \<open>idr_work.entities_delta\<close> rows are (run id, entity key); \<open>lp_labels\<close> rows are
  (entity key, label); \<open>lp_edges\<close> rows are (src, dst).
\<close>

definition init_labels :: "string \<Rightarrow> (string \<times> 'k) list \<Rightarrow> ('k \<times> 'k) list" where
  "init_labels run_id entities_delta =
     map (\<lambda>k. (k, k)) (remdups (map snd (filter (\<lambda>r. fst r = run_id) entities_delta)))"

definition lp_edges :: "'k edge_row list \<Rightarrow> ('k \<times> 'k) list" where
  "lp_edges es =
     map (\<lambda>e. (left_entity_key e, right_entity_key e)) es
     @ map (\<lambda>e. (right_entity_key e, left_entity_key e)) es"

text \<open>The CTE \<open>candidate_labels\<close>: the own label, and the label of every neighbour.\<close>

definition candidate_labels :: "('k \<times> 'k) list \<Rightarrow> ('k \<times> 'k) list \<Rightarrow> ('k \<times> 'k) list" where
  "candidate_labels labels edges =
     labels
     @ concat (map (\<lambda>e. map (\<lambda>l2. (fst e, snd l2)) (filter (\<lambda>l2. snd e = fst l2) labels)) edges)"

text \<open>\<open>lp_labels_new\<close>: \<open>MIN(candidate_label) ... GROUP BY entity_key\<close>.\<close>

definition propagate :: "('k::linorder \<times> 'k) list \<Rightarrow> ('k \<times> 'k) list \<Rightarrow> ('k \<times> 'k) list" where
  "propagate labels edges =
     (let cands = candidate_labels labels edges in
      map (\<lambda>k. (k, Min (set (map snd (filter (\<lambda>c. fst c = k) cands)))))
        (remdups (map fst cands)))"

text \<open>The convergence query: rows of the join whose labels differ.\<close>

definition changes :: "('k \<times> 'k) list \<Rightarrow> ('k \<times> 'k) list \<Rightarrow> nat" where
  "changes prev new =
     length (filter (\<lambda>(p, c). fst p = fst c \<and> snd p \<noteq> snd c) (List.product prev new))"

text \<open>
  The \<open>for i in range(max_iters)\<close> loop.  The first argument counts the iterations left, the
  second the iterations done.  Besides the iteration count and the final \<open>lp_labels\<close> the
  model returns a flag that records how the loop ended: \<open>True\<close> for the \<open>break\<close> on
  \<open>changes == 0\<close>, \<open>False\<close> when the range was used up.
\<close>

fun lp_loop ::
  "nat \<Rightarrow> nat \<Rightarrow> ('k::linorder \<times> 'k) list \<Rightarrow> ('k \<times> 'k) list \<Rightarrow> nat \<times> ('k \<times> 'k) list \<times> bool"
where
  "lp_loop 0 iterations labels edges = (iterations, labels, False)"
| "lp_loop (Suc n) iterations labels edges =
     (let new = propagate labels edges in
      if changes labels new = 0 then (Suc iterations, new, True)
      else lp_loop n (Suc iterations) new edges)"

record 'k lp_result =
  iterations :: nat
  clusters :: nat
  lp_labels :: "('k \<times> 'k) list"
  converged :: bool

definition label_propagation ::
  "string \<Rightarrow> int \<Rightarrow> (string \<times> 'k::linorder) list \<Rightarrow> 'k edge_row list \<Rightarrow> 'k lp_result" where
  "label_propagation run_id max_iters entities_delta es =
     (case lp_loop (nat max_iters) 0 (init_labels run_id entities_delta) (lp_edges es) of
        (its, labels, conv) \<Rightarrow>
          \<lparr> iterations = its,
            clusters = length (remdups (map snd labels)),
            lp_labels = labels,
            converged = conv \<rparr>)"

text \<open>The table after \<open>n\<close> iterations of the loop body.\<close>

definition labels_after ::
  "nat \<Rightarrow> string \<Rightarrow> (string \<times> 'k::linorder) list \<Rightarrow> 'k edge_row list \<Rightarrow> ('k \<times> 'k) list" where
  "labels_after n run_id entities_delta es =
     ((\<lambda>labels. propagate labels (lp_edges es)) ^^ n) (init_labels run_id entities_delta)"

text \<open>
  The graph the loop works on: the entities of the run, and the edges read in both
  directions.  Two entities are connected when a path of edges joins them; the connected
  component of an entity is the set of entities connected to it.
\<close>

definition run_entities :: "string \<Rightarrow> (string \<times> 'k) list \<Rightarrow> 'k set" where
  "run_entities run_id entities_delta = snd ` {r \<in> set entities_delta. fst r = run_id}"

definition undirected :: "'k edge_row list \<Rightarrow> ('k \<times> 'k) set" where
  "undirected es = set (lp_edges es)"

definition component :: "'k edge_row list \<Rightarrow> 'k \<Rightarrow> 'k set" where
  "component es k = {v. (k, v) \<in> (undirected es)\<^sup>*}"

text \<open>
  Every edge joins two entities of the run.  \<open>build_edges\<close> takes both ends of an edge from
  \<open>identifiers_all\<close>, whose entity keys the extraction takes from \<open>entities_delta\<close>.
\<close>

definition edges_within :: "'k set \<Rightarrow> 'k edge_row list \<Rightarrow> bool" where
  "edges_within V es = (\<forall>e\<in>set es. left_entity_key e \<in> V \<and> right_entity_key e \<in> V)"

text \<open>
  The invariant of the loop: \<open>lp_labels\<close> has exactly one row per entity of the run, and
  the label of an entity is at most its own key and is a key of its connected component.
\<close>

definition label_invariant :: "'k::linorder set \<Rightarrow> 'k edge_row list \<Rightarrow> ('k \<times> 'k) list \<Rightarrow> bool" where
  "label_invariant V es labels =
     (distinct (map fst labels) \<and> fst ` set labels = V
      \<and> (\<forall>r\<in>set labels. snd r \<le> fst r \<and> snd r \<in> component es (fst r)))"

text \<open>
  A small run used to exercise the theorems: three entities of run \<open>r1\<close> (and one row of an
  older run), with \<open>A:1\<close> and \<open>B:2\<close> sharing an e-mail address.
\<close>

definition example_delta :: "(string \<times> string) list" where
  "example_delta = [(''r1'', ''B:2''), (''r1'', ''A:1''), (''r0'', ''Z:9''), (''r1'', ''C:3'')]"

definition example_delta_reordered :: "(string \<times> string) list" where
  "example_delta_reordered =
     [(''r1'', ''C:3''), (''r1'', ''A:1''), (''r1'', ''B:2''), (''r0'', ''Z:9''), (''r1'', ''A:1'')]"

definition example_edges :: "string edge_row list" where
  "example_edges =
     [\<lparr> left_entity_key = ''B:2'', right_entity_key = ''A:1'',
        edge_identifier_type = ''EMAIL'', edge_identifier_value_norm = ''x@y.com'' \<rparr>]"

text \<open>
  A hub: three entities share one support address under a rule with
  \<open>max_group_size = 2\<close>.  And a table in which one entity contributes the same
  identifier twice.
\<close>

definition hub_ids :: "string identifier_row list" where
  "hub_ids =
     [\<lparr> entity_key = ''A:1'', identifier_type = ''EMAIL'',
        identifier_value_norm = ''support@x.com'', max_group_size = 2 \<rparr>,
      \<lparr> entity_key = ''B:2'', identifier_type = ''EMAIL'',
        identifier_value_norm = ''support@x.com'', max_group_size = 2 \<rparr>,
      \<lparr> entity_key = ''C:3'', identifier_type = ''EMAIL'',
        identifier_value_norm = ''support@x.com'', max_group_size = 2 \<rparr>]"

definition repeated_ids :: "string identifier_row list" where
  "repeated_ids =
     [\<lparr> entity_key = ''A:1'', identifier_type = ''EMAIL'',
        identifier_value_norm = ''x@y.com'', max_group_size = 10000 \<rparr>,
      \<lparr> entity_key = ''A:1'', identifier_type = ''EMAIL'',
        identifier_value_norm = ''x@y.com'', max_group_size = 10000 \<rparr>]"

definition pair_ids :: "string identifier_row list" where
  "pair_ids =
     [\<lparr> entity_key = ''B:2'', identifier_type = ''EMAIL'',
        identifier_value_norm = ''x@y.com'', max_group_size = 10000 \<rparr>,
      \<lparr> entity_key = ''A:1'', identifier_type = ''EMAIL'',
        identifier_value_norm = ''x@y.com'', max_group_size = 10000 \<rparr>]"

definition store_with :: "'k identifier_row list \<Rightarrow> bool \<Rightarrow> 'k graph_store" where
  "store_with ids ok =
     \<lparr> identifiers_all = ids, edges_new = [], skipped_insert_succeeds = ok,
       skipped_identifier_groups = [] \<rparr>"

section \<open>Fuzzy matching (idr\_core/stages/graph.py, run\_fuzzy\_matching)\<close>

text \<open>
  \<open>idr_work.cluster_attributes\<close> rows are (resolved id, attribute name, attribute value).
  The rule-scoped profile has one row per cluster: the resolved id and, for every
  referenced attribute in order, \<open>MAX(CASE WHEN attribute_name = name THEN attribute_value
  END)\<close>, which is NULL when the cluster has no value for the attribute.
\<close>

type_synonym 'k profile_row = "'k \<times> string option list"

definition pivot :: "('k \<times> string \<times> string) list \<Rightarrow> 'k \<Rightarrow> string \<Rightarrow> string option" where
  "pivot rows r name =
     (let vs = map (\<lambda>x. snd (snd x)) (filter (\<lambda>x. fst x = r \<and> fst (snd x) = name) rows)
      in if vs = [] then None else Some (Max (set vs)))"

definition build_profile ::
  "('k \<times> string \<times> string) list \<Rightarrow> string list \<Rightarrow> 'k profile_row list" where
  "build_profile cluster_attributes referenced_attrs =
     (let rows = filter (\<lambda>x. fst (snd x) \<in> set referenced_attrs) cluster_attributes
      in map (\<lambda>r. (r, map (pivot rows r) referenced_attrs)) (remdups (map fst rows)))"

text \<open>
  The rule's blocking-key expression and score expression are SQL text evaluated by the
  engine; the model takes them as functions of the rows they are evaluated on, with
  \<open>None\<close> for NULL.  \<open>md5\<close> is the engine's hash of a resolved id.
\<close>

definition max_block_size :: nat where
  "max_block_size = 10000"

text \<open>The CTE \<open>profile_with_bk\<close>: the rows whose blocking key is not NULL, with the key.\<close>

definition profile_with_bk ::
  "('k profile_row \<Rightarrow> 'b option) \<Rightarrow> 'k profile_row list \<Rightarrow> ('k profile_row \<times> 'b) list" where
  "profile_with_bk blocking profile =
     concat (map (\<lambda>p. case blocking p of None \<Rightarrow> [] | Some bk \<Rightarrow> [(p, bk)]) profile)"

definition block_sizes :: "('k profile_row \<times> 'b) list \<Rightarrow> ('b \<times> nat) list" where
  "block_sizes pwb =
     map (\<lambda>bk. (bk, length (filter (\<lambda>r. snd r = bk) pwb))) (remdups (map snd pwb))"

definition valid_blocks :: "('k profile_row \<times> 'b) list \<Rightarrow> 'b list" where
  "valid_blocks pwb = map fst (filter (\<lambda>bs. snd bs \<le> max_block_size) (block_sizes pwb))"

text \<open>
  The CTE \<open>scored_pairs\<close>: \<open>a JOIN b ON a.bk = b.bk AND md5(a.resolved_id) <
  md5(b.resolved_id) JOIN valid_blocks vb ON a.bk = vb.bk\<close>, as (left id, right id, score).
\<close>

definition scored_pairs ::
  "('k \<Rightarrow> 'h::linorder)
    \<Rightarrow> ('k profile_row \<times> 'b \<Rightarrow> 'k profile_row \<times> 'b \<Rightarrow> 's option)
    \<Rightarrow> ('k profile_row \<times> 'b) list \<Rightarrow> ('k \<times> 'k \<times> 's option) list" where
  "scored_pairs md5 score pwb =
     map (\<lambda>t. (fst (fst (fst t)), fst (fst (fst (snd t))), score (fst t) (fst (snd t))))
       (filter (\<lambda>t. snd (fst t) = snd (fst (snd t))
                   \<and> md5 (fst (fst (fst t))) < md5 (fst (fst (fst (snd t))))
                   \<and> snd (fst t) = snd (snd t))
          (List.product pwb (List.product pwb (valid_blocks pwb))))"

text \<open>\<open>WHERE score >= threshold\<close>; a NULL score does not pass.\<close>

definition above_threshold ::
  "'s::linorder \<Rightarrow> ('k \<times> 'k \<times> 's option) list \<Rightarrow> ('k \<times> 'k \<times> 's) list" where
  "above_threshold threshold pairs =
     concat (map (\<lambda>p. case snd (snd p) of
                        None \<Rightarrow> []
                      | Some s \<Rightarrow> if s \<ge> threshold then [(fst p, fst (snd p), s)] else [])
       pairs)"

text \<open>The rows one rule inserts into \<open>idr_work.fuzzy_edges\<close>.\<close>

definition fuzzy_rule_edges ::
  "('k \<Rightarrow> 'h::linorder) \<Rightarrow> ('k profile_row \<Rightarrow> 'b option)
    \<Rightarrow> ('k profile_row \<times> 'b \<Rightarrow> 'k profile_row \<times> 'b \<Rightarrow> 's option) \<Rightarrow> 's::linorder
    \<Rightarrow> ('k \<times> string \<times> string) list \<Rightarrow> string list \<Rightarrow> ('k \<times> 'k \<times> 's) list" where
  "fuzzy_rule_edges md5 blocking score threshold cluster_attributes referenced_attrs =
     above_threshold threshold
       (scored_pairs md5 score
          (profile_with_bk blocking (build_profile cluster_attributes referenced_attrs)))"

text \<open>The rows of \<open>scored_pairs\<close> that compare two given clusters, in either order.\<close>

definition comparisons_of ::
  "'k \<Rightarrow> 'k \<Rightarrow> ('k \<times> 'k \<times> 's option) list \<Rightarrow> ('k \<times> 'k \<times> 's option) list" where
  "comparisons_of x y pairs =
     filter (\<lambda>p. (fst p = x \<and> fst (snd p) = y) \<or> (fst p = y \<and> fst (snd p) = x)) pairs"

text \<open>
  An example rule: block on the first attribute, score 1 when the second attributes are
  equal, 1/2 when both are present and differ; the hash is the id read backwards.
\<close>

definition example_attributes :: "(string \<times> string \<times> string) list" where
  "example_attributes =
     [(''A:1'', ''zip'', ''94105''), (''A:1'', ''name'', ''ann''),
      (''C:33'', ''zip'', ''94105''), (''C:33'', ''name'', ''ann''),
      (''D:4'', ''zip'', ''94105''), (''D:4'', ''name'', ''dan'')]"

definition example_blocking :: "string profile_row \<Rightarrow> string option" where
  "example_blocking p = hd (snd p)"

definition example_score ::
  "string profile_row \<times> string \<Rightarrow> string profile_row \<times> string \<Rightarrow> rat option" where
  "example_score a b =
     (case (snd (fst a) ! 1, snd (fst b) ! 1) of
        (Some x, Some y) \<Rightarrow> Some (if x = y then 1 else 1 / 2)
      | _ \<Rightarrow> None)"

definition example_md5 :: "string \<Rightarrow> string" where
  "example_md5 k = rev k"

section \<open>Preflight and the runner (idr\_core/stages/preflight.py, runner.py)\<close>

text \<open>
  Rows of \<open>idr_out.run_history\<close>, with the columns the concurrency check reads and
  writes.  Timestamps are microseconds; \<open>started_at\<close> may be NULL.  An error message is
  a fixed text or the text of an exception.
\<close>

datatype message_text = Text string | ErrorText error

record run_row =
  rh_run_id :: string
  rh_run_mode :: string
  rh_status :: string
  rh_started_at :: "int option"
  rh_error_message :: "message_text option"

record source_row =
  src_table_id :: string
  src_table_fqn :: string
  src_is_active :: bool

text \<open>
  The store as the runner sees it.  \<open>production\<close> stands for the identity output tables
  (membership, clusters, edges) and everything else the later stages write;
  \<open>existing_tables\<close> is what \<open>table_exists\<close> answers from; \<open>active_rules\<close> is the count
  of active rows of \<open>idr_meta.rule\<close>.
\<close>

record 'p store =
  run_history :: "run_row list"
  source_table :: "source_row list"
  existing_tables :: "string list"
  active_rules :: nat
  stage_metrics :: "(string \<times> string) list"
  warnings :: "string list"
  production :: 'p

definition four_hours :: int where
  "four_hours = 4 * 3600 * 1000000"

text \<open>The time filter \<open>started_at < CURRENT_TIMESTAMP - INTERVAL '4 hours'\<close>; NULL is not less.\<close>

definition stale :: "int \<Rightarrow> run_row \<Rightarrow> bool" where
  "stale now r = (case rh_started_at r of None \<Rightarrow> False | Some t \<Rightarrow> t < now - four_hours)"

text \<open>The UPDATE that marks stale RUNNING rows INTERRUPTED.\<close>

definition mark_stale :: "int \<Rightarrow> run_row list \<Rightarrow> run_row list" where
  "mark_stale now rh =
     map (\<lambda>r. if rh_status r = ''RUNNING'' \<and> stale now r
              then r\<lparr> rh_status := ''INTERRUPTED'',
                     rh_error_message := Some (Text ''Run interrupted - stale RUNNING state detected'') \<rparr>
              else r) rh"

text \<open>
  \<open>PreflightStage.run\<close>: the exception it raises, if any, and the store it leaves.  (The
  schema upgrade before the UPDATE only adds a column to \<open>run_history\<close>, and the
  identifier-column validation at the end only appends warnings; both are left out.)
\<close>

definition preflight_run :: "int \<Rightarrow> 'p store \<Rightarrow> error option \<times> 'p store" where
  "preflight_run now st =
     (let st1 = st\<lparr> run_history := mark_stale now (run_history st) \<rparr>;
          running = filter (\<lambda>r. rh_status r = ''RUNNING'') (run_history st1)
      in case running of
           r # _ \<Rightarrow> (Some (RuntimeError [] (ConcurrentRun (rh_run_id r))), st1)
         | [] \<Rightarrow>
           (let sources = filter src_is_active (source_table st1) in
            if sources = [] then (Some (RuntimeError [] NoActiveSources), st1)
            else
              (case find (\<lambda>s. src_table_fqn s \<notin> set (existing_tables st1)) sources of
                 Some s \<Rightarrow> (Some (RuntimeError [] (SourceNotFound (src_table_fqn s))), st1)
               | None \<Rightarrow>
                   (None,
                    if active_rules st1 = 0
                    then st1\<lparr> warnings := warnings st1 @ [''No active matching rules configured''] \<rparr>
                    else st1))))"

text \<open>\<open>_record_run_start\<close>: the INSERT of the RUNNING row of the new run.\<close>

definition record_run_start :: "string \<Rightarrow> string \<Rightarrow> int \<Rightarrow> 'p store \<Rightarrow> 'p store" where
  "record_run_start new_id run_mode now st =
     st\<lparr> run_history := run_history st @
            [\<lparr> rh_run_id = new_id, rh_run_mode = run_mode, rh_status = ''RUNNING'',
               rh_started_at = Some now, rh_error_message = None \<rparr>] \<rparr>"

record run_result =
  result_run_id :: string
  result_status :: string
  result_error :: "error option"

text \<open>
  \<open>_complete_run\<close>: the UPDATE of the run's own history row, the INSERT of one
  \<open>stage_metrics\<close> row per stage started, and the result.
\<close>

definition complete_run ::
  "string \<Rightarrow> string list \<Rightarrow> string \<Rightarrow> error option \<Rightarrow> 'p store \<Rightarrow> run_result \<times> 'p store" where
  "complete_run new_id stages final_status err st =
     (\<lparr> result_run_id = new_id, result_status = final_status, result_error = err \<rparr>,
      st\<lparr> run_history :=
             map (\<lambda>r. if rh_run_id r = new_id
                      then r\<lparr> rh_status := final_status,
                             rh_error_message :=
                               (case err of None \<Rightarrow> rh_error_message r | Some e \<Rightarrow> Some (ErrorText e)) \<rparr>
                      else r) (run_history st),
          stage_metrics := stage_metrics st @ map (\<lambda>s. (new_id, s)) stages \<rparr>)"

text \<open>
  \<open>IDRRunner.run\<close>.  The stages after preflight (extraction, graph, output or dry-run
  analysis) are the parameter \<open>stages_after\<close>: from the store they return the stages they
  started, the final status or the exception, and the store they leave.
\<close>

definition run ::
  "string \<Rightarrow> string \<Rightarrow> int
    \<Rightarrow> ('p store \<Rightarrow> string list \<times> (error + string) \<times> 'p store)
    \<Rightarrow> 'p store \<Rightarrow> run_result \<times> 'p store" where
  "run new_id run_mode now stages_after st =
     (case preflight_run now st of
        (Some e, st1) \<Rightarrow> complete_run new_id [''preflight''] ''FAILED'' (Some e) st1
      | (None, st1) \<Rightarrow>
          (case stages_after (record_run_start new_id run_mode now st1) of
             (started, Inl e, st2) \<Rightarrow>
               complete_run new_id (''preflight'' # started) ''FAILED'' (Some e) st2
           | (started, Inr final_status, st2) \<Rightarrow>
               complete_run new_id (''preflight'' # started) final_status None st2))"

text \<open>The age of a run: the time since it started.\<close>

definition age :: "int \<Rightarrow> run_row \<Rightarrow> int option" where
  "age now r = map_option (\<lambda>t. now - t) (rh_started_at r)"

text \<open>
  A store with one run still marked RUNNING that started \<open>d\<close> microseconds before
  \<open>now = 10 * four_hours\<close>, and one active source that exists.
\<close>

definition store_running :: "int \<Rightarrow> unit store" where
  "store_running d =
     \<lparr> run_history =
         [\<lparr> rh_run_id = ''run_old'', rh_run_mode = ''FULL'', rh_status = ''RUNNING'',
            rh_started_at = Some (10 * four_hours - d), rh_error_message = None \<rparr>],
       source_table =
         [\<lparr> src_table_id = ''crm'', src_table_fqn = ''main.crm'', src_is_active = True \<rparr>],
       existing_tables = [''main.crm''],
       active_rules = 1,
       stage_metrics = [],
       warnings = [],
       production = () \<rparr>"

definition no_stages :: "unit store \<Rightarrow> string list \<times> (error + string) \<times> unit store" where
  "no_stages st = ([], Inr ''SUCCESS_NO_CHANGES'', st)"

section \<open>The output stage (idr\_core/stages/output.py)\<close>


record 'k current_edge_row =
  ce_left_entity_key :: 'k
  ce_right_entity_key :: 'k
  ce_identifier_type :: string
  ce_run_id :: string












section \<open>The stages of a run (idr\_core/runner.py, IDRRunner.run)\<close>
















section \<open>Validator theorems\<close>

lemma validate_float_bounded:
  "validate_float sf itf v name = Inr r \<Longrightarrow> \<exists>q. r = Finite q \<and> \<bar>q\<bar> < 10 ^ 15"
  by (cases r) (auto simp: validate_float_def split: sum.splits builtin_error.splits if_splits)

lemma validate_float_rejects_large:
  "10 ^ 15 \<le> \<bar>q\<bar> \<Longrightarrow> validate_float sf itf (PyFloat (Finite q)) name
     = Inl (ValueError name (InvalidFloat (PyFloat (Finite q))))"
  by (auto simp: validate_float_def)

text \<open>
  C6.  The claim is that both the integer and the float validator refuse every value of
  magnitude at least 1e15.  The float validator does; the integer validator has no bound and
  returns the integer \<open>10^15\<close> as it is.
\<close>

theorem validate_integer_returns_1e15:
  "validate_integer str_to_int (PyInt (10 ^ 15)) name = Inr 1000000000000000"
  by (simp add: validate_integer_def)


section \<open>Canonicalization and the expression validator: theorems\<close>




text \<open>
  Canonicalization is idempotent for every mode exactly when the engine's \<open>LOWER\<close> and
  \<open>UPPER\<close> are: the code adds nothing to them.
\<close>

lemma canonicalize_value_idempotent_only_if:
  assumes "\<forall>m x. canonicalize_value engine_lower engine_upper m
                   (canonicalize_value engine_lower engine_upper m x)
                 = canonicalize_value engine_lower engine_upper m x"
  shows "(\<forall>s. engine_lower (engine_lower s) = engine_lower s)
       \<and> (\<forall>s. engine_upper (engine_upper s) = engine_upper s)"
proof (intro conjI allI)
  fix s
  show "engine_lower (engine_lower s) = engine_lower s"
    using assms[rule_format, of "''LOWERCASE''" s] by (simp add: canonicalize_value_def)
  show "engine_upper (engine_upper s) = engine_upper s"
    using assms[rule_format, of "''UPPERCASE''" s] by (simp add: canonicalize_value_def)
qed



lemma search_from_here: "match_at p s \<Longrightarrow> search_from p s"
  by (cases s) simp_all

lemma search_from_append:
  "match_at (if pre = [] then p else Some (last pre)) s \<Longrightarrow> search_from p (pre @ s)"
proof (induction pre arbitrary: p)
  case Nil
  then show ?case by (simp add: search_from_here)
next
  case (Cons c pre)
  have "match_at (if pre = [] then Some c else Some (last pre)) s"
    using Cons.prems by (simp split: if_splits)
  then have "search_from (Some c) (pre @ s)" by (rule Cons.IH)
  then show ?case by simp
qed

lemma ws_star_here: "k p r \<Longrightarrow> ws_star k p r"
  by (cases r) simp_all

lemma ws_star_skip:
  "\<forall>c\<in>set ws. is_space c \<Longrightarrow> k (if ws = [] then p else Some (last ws)) r
    \<Longrightarrow> ws_star k p (ws @ r)"
proof (induction ws arbitrary: p)
  case Nil
  then show ?case by (simp add: ws_star_here)
next
  case (Cons c ws)
  have "k (if ws = [] then Some c else Some (last ws)) r"
    using Cons.prems(2) by (simp split: if_splits)
  moreover have "\<forall>c\<in>set ws. is_space c" using Cons.prems(1) by simp
  ultimately have "ws_star k (Some c) (ws @ r)" by (rule Cons.IH[rotated])
  moreover have "is_space c" using Cons.prems(1) by simp
  ultimately show ?case by simp
qed

lemma rejected_unsafeI:
  "match_at (if pre = [] then None else Some (last pre)) s \<Longrightarrow> s \<noteq> []
    \<Longrightarrow> rejected_unsafe (pre @ s)"
  using search_from_append[of pre None s]
  by (simp add: rejected_unsafe_def validate_sql_expr_def dangerous_sql_search_def)

lemma reject_semicolon_end:
  assumes "\<forall>c\<in>set ws. is_space c"
  shows "rejected_unsafe (pre @ '';'' @ ws)"
proof -
  have "ws_star (\<lambda>p r. at_end r) (Some CHR '';'') (ws @ [])"
    by (rule ws_star_skip[OF assms]) (simp add: at_end_def)
  then have "match_at (if pre = [] then None else Some (last pre)) ('';'' @ ws)"
    by (simp add: match_at_def semicolon_alt_def)
  then show ?thesis by (rule rejected_unsafeI) simp
qed

lemma reject_semicolon_word:
  assumes "\<forall>c\<in>set ws. is_space c" and "is_word c"
  shows "rejected_unsafe (pre @ '';'' @ ws @ c # post)"
proof -
  have "ws_star (\<lambda>p r. word_next r) (Some CHR '';'') (ws @ c # post)"
    by (rule ws_star_skip[OF assms(1)]) (simp add: word_next_def assms(2))
  then have "match_at (if pre = [] then None else Some (last pre)) ('';'' @ ws @ c # post)"
    by (simp add: match_at_def semicolon_alt_def)
  then show ?thesis by (rule rejected_unsafeI) simp
qed

lemma reject_dash:
  assumes "is_space c"
  shows "rejected_unsafe (pre @ ''--'' @ c # post)"
proof -
  have "match_at (if pre = [] then None else Some (last pre)) (''--'' @ c # post)"
    by (simp add: match_at_def dash_alt_def assms)
  then show ?thesis by (rule rejected_unsafeI) simp
qed

lemma reject_comment:
  "rejected_unsafe (pre @ ''/*'' @ post)" "rejected_unsafe (pre @ ''*/'' @ post)"
proof -
  have "match_at (if pre = [] then None else Some (last pre)) (''/*'' @ post)"
    by (simp add: match_at_def comment_alt_def)
  then show "rejected_unsafe (pre @ ''/*'' @ post)" by (rule rejected_unsafeI) simp
  have "match_at (if pre = [] then None else Some (last pre)) (''*/'' @ post)"
    by (simp add: match_at_def comment_alt_def)
  then show "rejected_unsafe (pre @ ''*/'' @ post)" by (rule rejected_unsafeI) simp
qed

lemma ci_match_upper:
  "ci_match (map ascii_upper w) p (w @ r) = Some (if w = [] then p else Some (last w), r)"
  by (induction w arbitrary: p) simp_all

lemma upper_letter_is_word:
  assumes "65 \<le> (of_char (ascii_upper c) :: nat)" "(of_char (ascii_upper c) :: nat) \<le> 90"
  shows "is_word c"
proof -
  let ?n = "of_char c :: nat"
  have "(65 \<le> ?n \<and> ?n \<le> 90) \<or> (97 \<le> ?n \<and> ?n \<le> 122)"
    using assms by (auto simp: ascii_upper_def Let_def split: if_splits)
  then show ?thesis by (auto simp: is_word_def Let_def)
qed

lemma letters_are_words:
  assumes "upper_letters (map ascii_upper w)" "c \<in> set w"
  shows "is_word c"
  using assms upper_letter_is_word by (auto simp: upper_letters_def)

lemma keyword_letters: "kw \<in> set sql_keywords \<or> kw \<in> set union_tails \<or> kw = ''UNION''
    \<Longrightarrow> upper_letters kw \<and> kw \<noteq> []"
  unfolding sql_keywords_def union_tails_def upper_letters_def by auto

lemma keyword_then_boundary_upper:
  assumes "upper_letters (map ascii_upper w)" "w \<noteq> []" "\<not> word_next post"
  shows "keyword_then_boundary (map ascii_upper w) p (w @ post)"
proof -
  have "is_word (last w)" using assms(1,2) by (auto intro: letters_are_words)
  then show ?thesis
    using assms(2,3)
    by (simp add: keyword_then_boundary_def ci_match_upper word_boundary_def word_prev_def)
qed

lemma word_boundary_start:
  assumes "upper_letters (map ascii_upper w)" "w \<noteq> []" "\<not> word_prev p"
  shows "word_boundary p (w @ r)"
proof -
  have "is_word (hd w)" using assms(1,2) by (auto intro: letters_are_words)
  then show ?thesis using assms(2,3) by (cases w) (simp_all add: word_boundary_def word_next_def)
qed

lemma reject_keyword:
  assumes kw: "map ascii_upper w \<in> set sql_keywords"
    and pre: "\<not> word_prev (prev_of pre)" and post: "\<not> word_next post"
  shows "rejected_unsafe (pre @ w @ post)"
proof -
  have ul: "upper_letters (map ascii_upper w)" and ne: "w \<noteq> []"
    using keyword_letters[of "map ascii_upper w"] kw by auto
  have "keyword_then_boundary (map ascii_upper w) (prev_of pre) (w @ post)"
    by (rule keyword_then_boundary_upper[OF ul ne post])
  then have "list_ex (\<lambda>kw. keyword_then_boundary kw (prev_of pre) (w @ post)) sql_keywords"
    using kw by (auto simp: list_ex_iff)
  moreover have "word_boundary (prev_of pre) (w @ post)"
    by (rule word_boundary_start[OF ul ne pre])
  ultimately have "match_at (prev_of pre) (w @ post)"
    by (simp add: match_at_def keyword_alt_def)
  then have "rejected_unsafe (pre @ (w @ post))"
    unfolding prev_of_def by (rule rejected_unsafeI) (simp add: ne)
  then show ?thesis by simp
qed

lemma reject_union:
  assumes u: "map ascii_upper u = ''UNION''"
    and ws: "ws \<noteq> []" "\<forall>c\<in>set ws. is_space c"
    and t: "map ascii_upper t \<in> set union_tails"
    and pre: "\<not> word_prev (prev_of pre)" and post: "\<not> word_next post"
  shows "rejected_unsafe (pre @ u @ ws @ t @ post)"
proof -
  have ulu: "upper_letters (map ascii_upper u)" and neu: "u \<noteq> []"
    using keyword_letters[of "map ascii_upper u"] u by auto
  have ult: "upper_letters (map ascii_upper t)" and net: "t \<noteq> []"
    using keyword_letters[of "map ascii_upper t"] t by auto
  obtain c ws' where wsc: "ws = c # ws'" using ws(1) by (cases ws) auto
  have sp: "is_space c" "\<forall>c\<in>set ws'. is_space c" using ws(2) wsc by auto
  let ?k = "\<lambda>q r. list_ex (\<lambda>tail. keyword_then_boundary tail q r) union_tails"
  have "keyword_then_boundary (map ascii_upper t) q (t @ post)" for q
    by (rule keyword_then_boundary_upper[OF ult net post])
  then have "?k q (t @ post)" for q using t by (auto simp: list_ex_iff)
  then have "ws_star ?k (Some c) (ws' @ t @ post)"
    by (intro ws_star_skip[OF sp(2)])
  moreover have "ci_match ''UNION'' (prev_of pre) (u @ ws @ t @ post)
      = Some (Some (last u), ws @ t @ post)"
    using ci_match_upper[of u "prev_of pre" "ws @ t @ post"] u neu by simp
  ultimately have "union_alt (prev_of pre) (u @ ws @ t @ post)"
    using sp(1) wsc by (simp add: union_alt_def)
  moreover have "word_boundary (prev_of pre) (u @ ws @ t @ post)"
    by (rule word_boundary_start[OF ulu neu pre])
  ultimately have "match_at (prev_of pre) (u @ ws @ t @ post)"
    by (simp add: match_at_def keyword_alt_def)
  then have "rejected_unsafe (pre @ (u @ ws @ t @ post))"
    unfolding prev_of_def by (rule rejected_unsafeI) (simp add: neu)
  then show ?thesis by simp
qed

lemma validate_sql_expr_unchanged: "validate_sql_expr v name = Inr r \<Longrightarrow> r = v"
  by (auto simp: validate_sql_expr_def split: if_splits)

lemma drop_table_rejected: "rejected_unsafe ''id; DROP TABLE users''"
  using reject_semicolon_word[of "'' ''" "CHR ''D''" "''id''" "''ROP TABLE users''"]
  by (simp add: is_space_def is_word_def)

lemma lower_email_accepted: "validate_sql_expr ''LOWER(email)'' name = Inr ''LOWER(email)''"
  by code_simp

text \<open>
  C5, as the code has it.  The validator refuses the empty expression and every expression
  in which: a semicolon is followed by nothing but white space up to the end; a semicolon is
  followed by optional white space and a word character; \<open>--\<close> is followed by a white
  space character; \<open>/*\<close> or \<open>*/\<close> occurs; one of the listed keywords occurs in any
  letter case as a whole word; UNION, white space and ALL or SELECT occur as whole words.
  Every accepted expression is returned unchanged.  In particular
  \<open>id; DROP TABLE users\<close> is refused and \<open>LOWER(email)\<close> is returned as it is.
\<close>

theorem validate_sql_expr_blocklist:
  "validate_sql_expr [] name = Inl (ValueError name CannotBeEmpty)
   \<and> ((\<forall>c\<in>set ws. is_space c) \<longrightarrow> rejected_unsafe (pre @ '';'' @ ws))
   \<and> ((\<forall>c\<in>set ws. is_space c) \<and> is_word c \<longrightarrow> rejected_unsafe (pre @ '';'' @ ws @ c # post))
   \<and> (is_space c \<longrightarrow> rejected_unsafe (pre @ ''--'' @ c # post))
   \<and> rejected_unsafe (pre @ ''/*'' @ post)
   \<and> rejected_unsafe (pre @ ''*/'' @ post)
   \<and> (map ascii_upper w \<in> set sql_keywords \<and> \<not> word_prev (prev_of pre) \<and> \<not> word_next post
        \<longrightarrow> rejected_unsafe (pre @ w @ post))
   \<and> (map ascii_upper u = ''UNION'' \<and> ws \<noteq> [] \<and> (\<forall>c\<in>set ws. is_space c)
        \<and> map ascii_upper t \<in> set union_tails
        \<and> \<not> word_prev (prev_of pre) \<and> \<not> word_next post
        \<longrightarrow> rejected_unsafe (pre @ u @ ws @ t @ post))
   \<and> (validate_sql_expr v name = Inr r \<longrightarrow> r = v)
   \<and> rejected_unsafe ''id; DROP TABLE users''
   \<and> validate_sql_expr ''LOWER(email)'' name = Inr ''LOWER(email)''"
proof (intro conjI impI)
  show "validate_sql_expr [] name = Inl (ValueError name CannotBeEmpty)"
    by (simp add: validate_sql_expr_def)
  show "rejected_unsafe (pre @ '';'' @ ws)" if "\<forall>c\<in>set ws. is_space c"
    using that by (rule reject_semicolon_end)
  show "rejected_unsafe (pre @ '';'' @ ws @ c # post)" if "(\<forall>c\<in>set ws. is_space c) \<and> is_word c"
    using that by (intro reject_semicolon_word) auto
  show "rejected_unsafe (pre @ ''--'' @ c # post)" if "is_space c"
    using that by (rule reject_dash)
  show "rejected_unsafe (pre @ ''/*'' @ post)" by (rule reject_comment)
  show "rejected_unsafe (pre @ ''*/'' @ post)" by (rule reject_comment)
  show "rejected_unsafe (pre @ w @ post)"
    if "map ascii_upper w \<in> set sql_keywords \<and> \<not> word_prev (prev_of pre) \<and> \<not> word_next post"
    using that by (intro reject_keyword) auto
  show "rejected_unsafe (pre @ u @ ws @ t @ post)"
    if "map ascii_upper u = ''UNION'' \<and> ws \<noteq> [] \<and> (\<forall>c\<in>set ws. is_space c)
        \<and> map ascii_upper t \<in> set union_tails
        \<and> \<not> word_prev (prev_of pre) \<and> \<not> word_next post"
    using that by (intro reject_union) auto
  show "r = v" if "validate_sql_expr v name = Inr r"
    using that by (rule validate_sql_expr_unchanged)
  show "rejected_unsafe ''id; DROP TABLE users''" by (rule drop_table_rejected)
  show "validate_sql_expr ''LOWER(email)'' name = Inr ''LOWER(email)''"
    by (rule lower_email_accepted)
qed

text \<open>
  The blocklist at concrete inputs: a DELETE after a semicolon, a comment, a lower-case
  keyword and a UNION SELECT are refused; an accepted expression comes back unchanged.
\<close>

theorem validate_sql_expr_blocklist_witness:
  "rejected_unsafe ''x; DELETE FROM t''
   \<and> rejected_unsafe ''x;  ''
   \<and> rejected_unsafe ''id -- comment''
   \<and> rejected_unsafe ''drop table users''
   \<and> rejected_unsafe ''1 UNION  SELECT 2''
   \<and> validate_sql_expr ''price * quantity'' ''expr'' = Inr ''price * quantity''"
proof -
  have ha: "(\<forall>c\<in>set '' ''. is_space c) \<and> is_word CHR ''D''"
    by (simp add: is_space_def is_word_def)
  have a: "rejected_unsafe (''x'' @ '';'' @ '' '' @ CHR ''D'' # ''ELETE FROM t'')"
    by (rule validate_sql_expr_blocklist[where ws = "'' ''" and pre = "''x''"
          and c = "CHR ''D''" and post = "''ELETE FROM t''",
          THEN conjunct2, THEN conjunct2, THEN conjunct1, THEN mp, OF ha])
  have hb: "\<forall>c\<in>set ''  ''. is_space c"
    by (simp add: is_space_def)
  have b: "rejected_unsafe (''x'' @ '';'' @ ''  '')"
    by (rule validate_sql_expr_blocklist[where ws = "''  ''" and pre = "''x''",
          THEN conjunct2, THEN conjunct1, THEN mp, OF hb])
  have hc: "is_space CHR '' ''"
    by (simp add: is_space_def)
  have c: "rejected_unsafe (''id '' @ ''--'' @ CHR '' '' # ''comment'')"
    by (rule validate_sql_expr_blocklist[where pre = "''id ''" and c = "CHR '' ''"
          and post = "''comment''",
          THEN conjunct2, THEN conjunct2, THEN conjunct2, THEN conjunct1, THEN mp, OF hc])
  have hd: "map ascii_upper ''drop'' \<in> set sql_keywords \<and> \<not> word_prev (prev_of [])
      \<and> \<not> word_next '' table users''"
    by code_simp
  have d: "rejected_unsafe ([] @ ''drop'' @ '' table users'')"
    by (rule validate_sql_expr_blocklist[where pre = "[]" and w = "''drop''"
          and post = "'' table users''",
          THEN conjunct2, THEN conjunct2, THEN conjunct2, THEN conjunct2, THEN conjunct2,
          THEN conjunct2, THEN conjunct1, THEN mp, OF hd])
  have he1: "map ascii_upper ''UNION'' = ''UNION''
      \<and> map ascii_upper ''SELECT'' \<in> set union_tails
      \<and> \<not> word_prev (prev_of ''1 '') \<and> \<not> word_next '' 2''"
    by code_simp
  have he: "map ascii_upper ''UNION'' = ''UNION'' \<and> ''  '' \<noteq> [] \<and> (\<forall>c\<in>set ''  ''. is_space c)
      \<and> map ascii_upper ''SELECT'' \<in> set union_tails
      \<and> \<not> word_prev (prev_of ''1 '') \<and> \<not> word_next '' 2''"
    using he1 hb by simp
  have e: "rejected_unsafe (''1 '' @ ''UNION'' @ ''  '' @ ''SELECT'' @ '' 2'')"
    by (rule validate_sql_expr_blocklist[where pre = "''1 ''" and u = "''UNION''"
          and ws = "''  ''" and t = "''SELECT''" and post = "'' 2''",
          THEN conjunct2, THEN conjunct2, THEN conjunct2, THEN conjunct2, THEN conjunct2,
          THEN conjunct2, THEN conjunct2, THEN conjunct1, THEN mp, OF he])
  have "validate_sql_expr ''price * quantity'' ''expr'' = Inr ''price * quantity''"
    by code_simp
  with a b c d e show ?thesis by simp
qed

text \<open>
  The claim as stated fails: \<open>id;--x\<close> contains a statement terminator and a comment
  marker, and the validator returns it.
\<close>

theorem validate_sql_expr_accepts_terminator:
  "CHR '';'' \<in> set ''id;--x'' \<and> validate_sql_expr ''id;--x'' ''expression'' = Inr ''id;--x''"
  by code_simp

section \<open>Label propagation: theorems\<close>

lemma set_candidate_labels:
  "set (candidate_labels L E) = set L \<union> {(s, l). \<exists>d. (s, d) \<in> set E \<and> (d, l) \<in> set L}"
  by (force simp: candidate_labels_def)

lemma set_propagate:
  "set (propagate L E) =
     (\<lambda>k. (k, Min {c. (k, c) \<in> set (candidate_labels L E)})) ` fst ` set (candidate_labels L E)"
proof -
  have "set (map snd (filter (\<lambda>c. fst c = k) cs)) = {c. (k, c) \<in> set cs}" for k and cs :: "('a \<times> 'a) list"
    by force
  then show ?thesis by (simp add: propagate_def Let_def)
qed

lemma set_propagate_cong:
  "set L = set L' \<Longrightarrow> set E = set E' \<Longrightarrow> set (propagate L E) = set (propagate L' E')"
  by (simp add: set_propagate set_candidate_labels)

lemma distinct_propagate: "distinct (map fst (propagate L E))"
  by (simp add: propagate_def Let_def comp_def)

lemma changes_zero_iff:
  "changes P N = 0 \<longleftrightarrow> (\<forall>p\<in>set P. \<forall>c\<in>set N. fst p = fst c \<longrightarrow> snd p = snd c)"
  by (auto simp: changes_def filter_empty_conv)

lemma changes_cong:
  "set P = set P' \<Longrightarrow> set N = set N' \<Longrightarrow> (changes P N = 0) = (changes P' N' = 0)"
  by (simp add: changes_zero_iff)

lemma undirected_iff:
  "(a, b) \<in> undirected es \<longleftrightarrow>
     (\<exists>e\<in>set es. (a = left_entity_key e \<and> b = right_entity_key e)
        \<or> (a = right_entity_key e \<and> b = left_entity_key e))"
  by (auto simp: undirected_def lp_edges_def)

lemma undirected_sym: "(a, b) \<in> undirected es \<Longrightarrow> (b, a) \<in> undirected es"
  by (auto simp: undirected_iff)

lemma sym_undirected: "sym (undirected es)"
  by (auto intro: symI undirected_sym)

lemma undirected_within:
  "edges_within V es \<Longrightarrow> (a, b) \<in> undirected es \<Longrightarrow> a \<in> V \<and> b \<in> V"
  by (auto simp: undirected_iff edges_within_def)

lemma component_within:
  assumes "edges_within V es" "k \<in> V"
  shows "component es k \<subseteq> V"
proof
  fix v assume "v \<in> component es k"
  then have "(k, v) \<in> (undirected es)\<^sup>*" by (simp add: component_def)
  then show "v \<in> V"
    using assms(2) by (induction rule: rtrancl_induct) (auto dest: undirected_within[OF assms(1)])
qed

lemma component_refl: "k \<in> component es k"
  by (simp add: component_def)

lemma component_step:
  "(k, d) \<in> undirected es \<Longrightarrow> m \<in> component es d \<Longrightarrow> m \<in> component es k"
  by (simp add: component_def converse_rtrancl_into_rtrancl)

lemma component_eq:
  assumes "v \<in> component es k"
  shows "component es v = component es k"
proof -
  have kv: "(k, v) \<in> (undirected es)\<^sup>*" using assms by (simp add: component_def)
  have "sym ((undirected es)\<^sup>*)" by (rule sym_rtrancl[OF sym_undirected])
  then have vk: "(v, k) \<in> (undirected es)\<^sup>*" using kv by (auto dest: symD)
  show ?thesis
    unfolding component_def using kv vk by (auto intro: rtrancl_trans)
qed

text \<open>One iteration keeps the invariant, and no label grows.\<close>

lemma propagate_step:
  assumes inv: "label_invariant V es L" and ew: "edges_within V es"
  shows "label_invariant V es (propagate L (lp_edges es))"
    and "\<forall>n\<in>set (propagate L (lp_edges es)). \<forall>p\<in>set L. fst p = fst n \<longrightarrow> snd n \<le> snd p"
proof -
  let ?E = "lp_edges es"
  let ?C = "set (candidate_labels L ?E)"
  have dist: "distinct (map fst L)" and keys: "fst ` set L = V"
    and rows: "\<And>k l. (k, l) \<in> set L \<Longrightarrow> l \<le> k \<and> l \<in> component es k"
    using inv by (auto simp: label_invariant_def)
  have C: "?C = set L \<union> {(s, l). \<exists>d. (s, d) \<in> undirected es \<and> (d, l) \<in> set L}"
    by (simp add: set_candidate_labels undirected_def)
  have fstC: "fst ` ?C = V"
  proof
    show "fst ` ?C \<subseteq> V"
      using keys undirected_within[OF ew] unfolding C by force
    show "V \<subseteq> fst ` ?C" using keys unfolding C by force
  qed
  have fin: "finite {c. (k, c) \<in> ?C}" for k
  proof -
    have "{c. (k, c) \<in> ?C} \<subseteq> snd ` ?C" by force
    then show ?thesis by (rule finite_subset) simp
  qed
  have minC: "Min {c. (k, c) \<in> ?C} \<in> {c. (k, c) \<in> ?C}" if "k \<in> V" for k
  proof (rule Min_in[OF fin])
    from that keys obtain l where "(k, l) \<in> set L" by force
    then show "{c. (k, c) \<in> ?C} \<noteq> {}" unfolding C by auto
  qed
  have new_rows: "(k, m) \<in> set (propagate L ?E) \<longleftrightarrow> k \<in> V \<and> m = Min {c. (k, c) \<in> ?C}" for k m
    unfolding set_propagate fstC by auto
  have le_old: "m \<le> l" if "(k, m) \<in> set (propagate L ?E)" "(k, l) \<in> set L" for k m l
  proof -
    have "l \<in> {c. (k, c) \<in> ?C}" using that(2) unfolding C by auto
    then have "Min {c. (k, c) \<in> ?C} \<le> l" by (rule Min_le[OF fin])
    then show ?thesis using that(1) by (simp add: new_rows)
  qed
  show "\<forall>n\<in>set (propagate L ?E). \<forall>p\<in>set L. fst p = fst n \<longrightarrow> snd n \<le> snd p"
    using le_old by (metis prod.collapse)
  have good: "m \<le> k \<and> m \<in> component es k" if km: "(k, m) \<in> set (propagate L ?E)" for k m
  proof -
    have kV: "k \<in> V" using km by (simp add: new_rows)
    then obtain l where l: "(k, l) \<in> set L" using keys by force
    have "m \<le> l" by (rule le_old[OF km l])
    then have le: "m \<le> k" using rows[OF l] by (auto intro: order_trans)
    have "(k, m) \<in> ?C" using minC[OF kV] km by (simp add: new_rows)
    then have "m \<in> component es k"
      unfolding C using rows by (auto intro: component_step)
    with le show ?thesis by simp
  qed
  have "fst ` set (propagate L ?E) = V"
    using new_rows by force
  then show "label_invariant V es (propagate L ?E)"
    unfolding label_invariant_def using distinct_propagate good by (metis prod.collapse)
qed

text \<open>When an iteration changes no label, the table is a fixed point and holds the minima.\<close>

lemma propagate_fixed:
  assumes inv: "label_invariant V es L" and ew: "edges_within V es" and fin: "finite V"
    and ch: "changes L (propagate L (lp_edges es)) = 0"
  shows "set (propagate L (lp_edges es)) = set L"
    and "\<forall>r\<in>set L. snd r = Min (component es (fst r))"
proof -
  let ?E = "lp_edges es"
  let ?N = "propagate L ?E"
  let ?C = "set (candidate_labels L ?E)"
  have invN: "label_invariant V es ?N" by (rule propagate_step(1)[OF inv ew])
  have dist: "distinct (map fst L)" and keys: "fst ` set L = V"
    and rows: "\<And>k l. (k, l) \<in> set L \<Longrightarrow> l \<le> k \<and> l \<in> component es k"
    using inv by (auto simp: label_invariant_def)
  have distN: "distinct (map fst ?N)" and keysN: "fst ` set ?N = V"
    using invN by (auto simp: label_invariant_def)
  have same: "l = m" if "(k, l) \<in> set L" "(k, m) \<in> set ?N" for k l m
    using ch that unfolding changes_zero_iff by force
  show eq: "set ?N = set L"
  proof (rule set_eqI)
    fix r :: "'a \<times> 'a"
    obtain k l where r: "r = (k, l)" by (cases r)
    show "r \<in> set ?N \<longleftrightarrow> r \<in> set L"
    proof
      assume a: "r \<in> set ?N"
      then have "k \<in> V" using keysN r by force
      then obtain l' where l': "(k, l') \<in> set L" using keys by force
      with a r same show "r \<in> set L" by auto
    next
      assume a: "r \<in> set L"
      then have "k \<in> V" using keys r by force
      then obtain m where m: "(k, m) \<in> set ?N" using keysN by force
      with a r same show "r \<in> set ?N" by auto
    qed
  qed
  have C: "?C = set L \<union> {(s, l). \<exists>d. (s, d) \<in> undirected es \<and> (d, l) \<in> set L}"
    by (simp add: set_candidate_labels undirected_def)
  have finC: "finite {c. (k, c) \<in> ?C}" for k
  proof -
    have "{c. (k, c) \<in> ?C} \<subseteq> snd ` ?C" by force
    then show ?thesis by (rule finite_subset) simp
  qed
  have edge_le: "la \<le> lb"
    if "(a, b) \<in> undirected es" "(a, la) \<in> set L" "(b, lb) \<in> set L" for a b la lb
  proof -
    have "(a, la) \<in> set ?N" using that(2) eq by simp
    then have "la = Min {c. (a, c) \<in> ?C}" unfolding set_propagate by auto
    moreover have "lb \<in> {c. (a, c) \<in> ?C}" using that(1,3) unfolding C by auto
    ultimately show ?thesis using Min_le[OF finC] by simp
  qed
  have edge_eq: "la = lb"
    if "(a, b) \<in> undirected es" "(a, la) \<in> set L" "(b, lb) \<in> set L" for a b la lb
    using edge_le[OF that] edge_le[OF undirected_sym[OF that(1)] that(3) that(2)] by simp
  have path_eq: "(v, l) \<in> set L"
    if "(k, v) \<in> (undirected es)\<^sup>*" "(k, l) \<in> set L" for k v l
    using that
  proof (induction rule: rtrancl_induct)
    case base
    then show ?case by simp
  next
    case (step y z)
    have yl: "(y, l) \<in> set L" using step by simp
    have "z \<in> V" using undirected_within[OF ew step.hyps(2)] by simp
    then obtain lz where lz: "(z, lz) \<in> set L" using keys by force
    have "l = lz" by (rule edge_eq[OF step.hyps(2) yl lz])
    with lz show ?case by simp
  qed
  show "\<forall>r\<in>set L. snd r = Min (component es (fst r))"
  proof
    fix r assume r: "r \<in> set L"
    obtain k l where kl: "r = (k, l)" by (cases r)
    have klL: "(k, l) \<in> set L" using r kl by simp
    have kV: "k \<in> V" using klL keys by force
    have finc: "finite (component es k)"
      using component_within[OF ew kV] fin by (rule finite_subset)
    have lin: "l \<in> component es k" using rows[OF klL] by simp
    have "l \<le> v" if "v \<in> component es k" for v
    proof -
      have "(k, v) \<in> (undirected es)\<^sup>*" using that by (simp add: component_def)
      then have "(v, l) \<in> set L" using klL by (rule path_eq)
      then show ?thesis using rows by blast
    qed
    then have "Min (component es k) = l"
      using lin finc by (intro Min_eqI) auto
    then show "snd r = Min (component es (fst r))" using kl by simp
  qed
qed

lemma init_labels_set:
  "set (init_labels run_id delta) = (\<lambda>k. (k, k)) ` run_entities run_id delta"
  by (auto simp: init_labels_def run_entities_def)

lemma init_labels_invariant:
  "label_invariant (run_entities run_id delta) es (init_labels run_id delta)"
proof -
  have "distinct (map fst (init_labels run_id delta))"
    by (simp add: init_labels_def comp_def)
  moreover have "fst ` set (init_labels run_id delta) = run_entities run_id delta"
    by (force simp: init_labels_set)
  ultimately show ?thesis
    by (auto simp: label_invariant_def init_labels_set component_refl)
qed

lemma finite_run_entities: "finite (run_entities run_id delta)"
  by (simp add: run_entities_def)

lemma lp_loop_invariant:
  assumes "label_invariant V es L" "edges_within V es" "finite V"
    and "lp_loop n i L (lp_edges es) = (i', L', c)"
  shows "label_invariant V es L' \<and> (c \<longrightarrow> (\<forall>r\<in>set L'. snd r = Min (component es (fst r))))"
  using assms
proof (induction n arbitrary: i L)
  case 0
  then show ?case by simp
next
  case (Suc n)
  let ?N = "propagate L (lp_edges es)"
  have invN: "label_invariant V es ?N"
    by (rule propagate_step(1)[OF Suc.prems(1,2)])
  show ?case
  proof (cases "changes L ?N = 0")
    case True
    then have res: "L' = ?N" "c" using Suc.prems(4) by (simp_all add: Let_def)
    have "set ?N = set L" and "\<forall>r\<in>set L. snd r = Min (component es (fst r))"
      using propagate_fixed[OF Suc.prems(1,2,3) True] by simp_all
    then show ?thesis using invN res by simp
  next
    case False
    then have "lp_loop n (Suc i) ?N (lp_edges es) = (i', L', c)"
      using Suc.prems(4) by (simp add: Let_def)
    then show ?thesis by (rule Suc.IH[OF invN Suc.prems(2,3)])
  qed
qed

lemma lp_loop_cong:
  assumes "set L = set M" "set E = set F"
  shows "fst (lp_loop n i L E) = fst (lp_loop n i M F)
    \<and> set (fst (snd (lp_loop n i L E))) = set (fst (snd (lp_loop n i M F)))
    \<and> snd (snd (lp_loop n i L E)) = snd (snd (lp_loop n i M F))"
  using assms
proof (induction n arbitrary: i L M)
  case 0
  then show ?case by simp
next
  case (Suc n)
  have p: "set (propagate L E) = set (propagate M F)"
    by (rule set_propagate_cong[OF Suc.prems])
  have c: "(changes L (propagate L E) = 0) = (changes M (propagate M F) = 0)"
    by (rule changes_cong[OF Suc.prems(1) p])
  show ?case
  proof (cases "changes L (propagate L E) = 0")
    case True
    then show ?thesis using c p by (simp add: Let_def)
  next
    case False
    then show ?thesis using c Suc.IH[OF p Suc.prems(2)] by (simp add: Let_def)
  qed
qed

lemma lp_loop_funpow:
  "lp_loop n i L E = (i', L', c)
    \<Longrightarrow> i \<le> i' \<and> i' \<le> i + n \<and> L' = ((\<lambda>X. propagate X E) ^^ (i' - i)) L"
proof (induction n arbitrary: i L)
  case 0
  then show ?case by simp
next
  case (Suc n)
  show ?case
  proof (cases "changes L (propagate L E) = 0")
    case True
    then show ?thesis using Suc.prems by (auto simp: Let_def)
  next
    case False
    then have "lp_loop n (Suc i) (propagate L E) E = (i', L', c)"
      using Suc.prems by (simp add: Let_def)
    from Suc.IH[OF this]
    have a: "Suc i \<le> i'" "i' \<le> Suc i + n"
      and b: "L' = ((\<lambda>X. propagate X E) ^^ (i' - Suc i)) (propagate L E)" by simp_all
    have "i' - i = Suc (i' - Suc i)" using a by simp
    then have "((\<lambda>X. propagate X E) ^^ (i' - i)) L
        = ((\<lambda>X. propagate X E) ^^ (i' - Suc i)) (propagate L E)"
      using funpow_swap1[of "\<lambda>X. propagate X E" "i' - Suc i" L] by simp
    then show ?thesis using a b by simp
  qed
qed

lemma labels_after_invariant:
  assumes "edges_within (run_entities run_id delta) es"
  shows "label_invariant (run_entities run_id delta) es (labels_after n run_id delta es)"
proof (induction n)
  case 0
  then show ?case by (simp add: labels_after_def init_labels_invariant)
next
  case (Suc n)
  then show ?case
    using propagate_step(1)[OF _ assms] by (simp add: labels_after_def)
qed

lemma labels_after_Suc:
  "labels_after (Suc n) run_id delta es = propagate (labels_after n run_id delta es) (lp_edges es)"
  by (simp add: labels_after_def)

lemma label_propagation_unfold:
  "lp_loop (nat max_iters) 0 (init_labels run_id delta) (lp_edges es) = (i, L, c)
    \<Longrightarrow> label_propagation run_id max_iters delta es
      = \<lparr> iterations = i, clusters = length (remdups (map snd L)), lp_labels = L, converged = c \<rparr>"
  by (simp add: label_propagation_def)

lemma label_propagation_order_independent:
  assumes "set delta = set delta'" "set es = set es'"
  shows "iterations (label_propagation run_id n delta es)
           = iterations (label_propagation run_id n delta' es')
    \<and> set (lp_labels (label_propagation run_id n delta es))
           = set (lp_labels (label_propagation run_id n delta' es'))
    \<and> clusters (label_propagation run_id n delta es)
           = clusters (label_propagation run_id n delta' es')
    \<and> converged (label_propagation run_id n delta es)
           = converged (label_propagation run_id n delta' es')"
proof -
  obtain i L c where r: "lp_loop (nat n) 0 (init_labels run_id delta) (lp_edges es) = (i, L, c)"
    by (cases "lp_loop (nat n) 0 (init_labels run_id delta) (lp_edges es)") auto
  obtain i' L' c' where
    r': "lp_loop (nat n) 0 (init_labels run_id delta') (lp_edges es') = (i', L', c')"
    by (cases "lp_loop (nat n) 0 (init_labels run_id delta') (lp_edges es')") auto
  have a: "set (init_labels run_id delta) = set (init_labels run_id delta')"
    using assms(1) by (simp add: init_labels_set run_entities_def)
  have b: "set (lp_edges es) = set (lp_edges es')"
    using assms(2) by (simp add: lp_edges_def)
  have "i = i' \<and> set L = set L' \<and> c = c'"
    using lp_loop_cong[OF a b, of "nat n" 0] r r' by simp
  moreover have "length (remdups (map snd L)) = length (remdups (map snd L'))" if "set L = set L'"
    using that by (simp add: length_remdups_card_conv)
  ultimately show ?thesis
    by (simp add: label_propagation_unfold[OF r] label_propagation_unfold[OF r'])
qed

lemma label_propagation_converged_min:
  assumes ew: "edges_within (run_entities run_id delta) es"
    and conv: "converged (label_propagation run_id n delta es)"
  shows "distinct (map fst (lp_labels (label_propagation run_id n delta es)))
    \<and> fst ` set (lp_labels (label_propagation run_id n delta es)) = run_entities run_id delta
    \<and> (\<forall>r\<in>set (lp_labels (label_propagation run_id n delta es)).
          snd r = Min (component es (fst r))
          \<and> snd r = Min {k. (k, snd r) \<in> set (lp_labels (label_propagation run_id n delta es))})"
proof -
  let ?V = "run_entities run_id delta"
  obtain i L c where r: "lp_loop (nat n) 0 (init_labels run_id delta) (lp_edges es) = (i, L, c)"
    by (cases "lp_loop (nat n) 0 (init_labels run_id delta) (lp_edges es)") auto
  have res: "lp_labels (label_propagation run_id n delta es) = L"
    and c: "c" using conv by (simp_all add: label_propagation_unfold[OF r])
  have inv: "label_invariant ?V es L"
    and mins: "\<forall>r\<in>set L. snd r = Min (component es (fst r))"
    using lp_loop_invariant[OF init_labels_invariant ew finite_run_entities r] c by simp_all
  have dist: "distinct (map fst L)" and keys: "fst ` set L = ?V"
    using inv by (simp_all add: label_invariant_def)
  have member_min: "l = Min {k'. (k', l) \<in> set L}" if kl: "(k, l) \<in> set L" for k l
  proof -
    have kV: "k \<in> ?V" using kl keys by force
    have finc: "finite (component es k')" if "k' \<in> ?V" for k'
      using component_within[OF ew that] finite_run_entities by (rule finite_subset)
    have l: "l = Min (component es k)" using mins kl by force
    have lin: "l \<in> component es k"
      using Min_in[OF finc[OF kV]] component_refl[of k es] l by auto
    then have lV: "l \<in> ?V" using component_within[OF ew kV] by auto
    then obtain l2 where l2: "(l, l2) \<in> set L" using keys by force
    then have "l2 = Min (component es l)" using mins by force
    then have "l2 = l" using component_eq[OF lin] l by simp
    then have mem: "l \<in> {k'. (k', l) \<in> set L}" using l2 by simp
    have "{k'. (k', l) \<in> set L} \<subseteq> fst ` set L" by force
    then have finm: "finite {k'. (k', l) \<in> set L}" by (rule finite_subset) simp
    have "l \<le> k'" if "(k', l) \<in> set L" for k'
    proof -
      have k'V: "k' \<in> ?V" using that keys by force
      have "l = Min (component es k')" using mins that by force
      then show ?thesis using Min_le[OF finc[OF k'V] component_refl[of k' es]] by simp
    qed
    then show ?thesis using mem finm by (intro Min_eqI[symmetric]) auto
  qed
  have "snd r = Min {k'. (k', snd r) \<in> set L}" if "r \<in> set L" for r
    using member_min[of "fst r" "snd r"] that by simp
  then show ?thesis
    unfolding res using dist keys mins by simp
qed

text \<open>
  C1.  Label propagation is deterministic: the iteration count, the final label
  assignment (as a set of rows), the cluster count and the way the loop ended depend only
  on which rows the entity and edge tables hold, not on their order or multiplicity.  When
  every edge joins two entities of the run and the loop ends because no label changed,
  \<open>lp_labels\<close> has exactly one row per entity, the label of every entity is the minimum
  entity key of its connected component, and every cluster id is the minimum entity key
  among the members of the cluster.
\<close>

theorem label_propagation_deterministic_min:
  "(set delta = set delta' \<and> set es = set es' \<longrightarrow>
      iterations (label_propagation run_id n delta es)
        = iterations (label_propagation run_id n delta' es')
      \<and> set (lp_labels (label_propagation run_id n delta es))
        = set (lp_labels (label_propagation run_id n delta' es'))
      \<and> clusters (label_propagation run_id n delta es)
        = clusters (label_propagation run_id n delta' es')
      \<and> converged (label_propagation run_id n delta es)
        = converged (label_propagation run_id n delta' es'))
   \<and> (edges_within (run_entities run_id delta) es
        \<and> converged (label_propagation run_id n delta es) \<longrightarrow>
      distinct (map fst (lp_labels (label_propagation run_id n delta es)))
      \<and> fst ` set (lp_labels (label_propagation run_id n delta es)) = run_entities run_id delta
      \<and> (\<forall>r\<in>set (lp_labels (label_propagation run_id n delta es)).
            snd r = Min (component es (fst r))
            \<and> snd r = Min {k. (k, snd r) \<in> set (lp_labels (label_propagation run_id n delta es))}))"
  using label_propagation_order_independent[of delta delta' es es' run_id n]
    label_propagation_converged_min[of run_id delta es n]
  by blast

text \<open>
  C10.  When every edge joins two entities of the run, after any number \<open>n\<close> of iterations
  every row of \<open>lp_labels\<close> belongs to an entity of the run, its label is at most the
  entity's own key and is the key of an entity of the same connected component; the label
  after iteration \<open>n + 1\<close> is at most the label after iteration \<open>n\<close>; and once an iteration
  changes no label, the table holds the same rows after every later iteration.  The table
  the loop returns is the table after as many iterations as the loop reports.
\<close>

theorem label_propagation_invariant:
  "edges_within (run_entities run_id delta) es \<longrightarrow>
     (\<forall>r\<in>set (labels_after n run_id delta es).
        fst r \<in> run_entities run_id delta \<and> snd r \<le> fst r
        \<and> snd r \<in> run_entities run_id delta \<and> snd r \<in> component es (fst r))
     \<and> (\<forall>r'\<in>set (labels_after (Suc n) run_id delta es).
          \<forall>r\<in>set (labels_after n run_id delta es). fst r = fst r' \<longrightarrow> snd r' \<le> snd r)
     \<and> (changes (labels_after n run_id delta es) (labels_after (Suc n) run_id delta es) = 0 \<longrightarrow>
          (\<forall>m\<ge>n. set (labels_after m run_id delta es) = set (labels_after n run_id delta es)))
     \<and> lp_labels (label_propagation run_id max_iters delta es)
          = labels_after (iterations (label_propagation run_id max_iters delta es)) run_id delta es"
proof (intro impI conjI)
  assume ew: "edges_within (run_entities run_id delta) es"
  let ?V = "run_entities run_id delta"
  let ?L = "\<lambda>n. labels_after n run_id delta es"
  have inv: "label_invariant ?V es (?L n)" for n
    by (rule labels_after_invariant[OF ew])
  show "\<forall>r\<in>set (?L n). fst r \<in> ?V \<and> snd r \<le> fst r \<and> snd r \<in> ?V \<and> snd r \<in> component es (fst r)"
  proof
    fix r assume r: "r \<in> set (?L n)"
    have k: "fst r \<in> ?V" using inv[of n] r by (auto simp: label_invariant_def)
    have a: "snd r \<le> fst r" "snd r \<in> component es (fst r)"
      using inv[of n] r by (auto simp: label_invariant_def)
    have "snd r \<in> ?V" using component_within[OF ew k] a(2) by auto
    with k a show "fst r \<in> ?V \<and> snd r \<le> fst r \<and> snd r \<in> ?V \<and> snd r \<in> component es (fst r)"
      by simp
  qed
  show "\<forall>r'\<in>set (?L (Suc n)). \<forall>r\<in>set (?L n). fst r = fst r' \<longrightarrow> snd r' \<le> snd r"
    using propagate_step(2)[OF inv[of n] ew] by (simp add: labels_after_Suc)
  show "\<forall>m\<ge>n. set (?L m) = set (?L n)" if ch: "changes (?L n) (?L (Suc n)) = 0"
  proof -
    have fix1: "set (?L (Suc n)) = set (?L n)"
      using propagate_fixed(1)[OF inv[of n] ew finite_run_entities] ch
      by (simp add: labels_after_Suc)
    have "set (?L (n + d)) = set (?L n)" for d
    proof (induction d)
      case 0
      show ?case by simp
    next
      case (Suc d)
      have "set (?L (Suc (n + d))) = set (propagate (?L n) (lp_edges es))"
        unfolding labels_after_Suc by (rule set_propagate_cong[OF Suc.IH refl])
      then show ?case using fix1 by (simp add: labels_after_Suc)
    qed
    then show ?thesis by (metis le_Suc_ex)
  qed
next
  obtain i L c where
    r: "lp_loop (nat max_iters) 0 (init_labels run_id delta) (lp_edges es) = (i, L, c)"
    by (cases "lp_loop (nat max_iters) 0 (init_labels run_id delta) (lp_edges es)") auto
  show "lp_labels (label_propagation run_id max_iters delta es)
      = labels_after (iterations (label_propagation run_id max_iters delta es)) run_id delta es"
    using lp_loop_funpow[OF r]
    by (simp add: label_propagation_unfold[OF r] labels_after_def)
qed

lemma example_edges_within: "edges_within (run_entities ''r1'' example_delta) example_edges"
  by (simp add: edges_within_def run_entities_def example_delta_def example_edges_def image_iff)

lemma example_run:
  "label_propagation ''r1'' 30 example_delta example_edges =
     \<lparr> iterations = 2, clusters = 2,
       lp_labels = [(''C:3'', ''C:3''), (''B:2'', ''A:1''), (''A:1'', ''A:1'')],
       converged = True \<rparr>"
  by code_simp

text \<open>
  The run of the example converges; reordering and repeating the rows of the input gives
  the same labels, and the label \<open>A:1\<close> of \<open>B:2\<close> is the minimum of its component.
\<close>

theorem label_propagation_deterministic_min_witness:
  "set (lp_labels (label_propagation ''r1'' 30 example_delta example_edges))
     = set (lp_labels (label_propagation ''r1'' 30 example_delta_reordered
              (example_edges @ example_edges)))
   \<and> Min (component example_edges ''B:2'') = ''A:1''"
proof -
  have h1: "set example_delta = set example_delta_reordered
      \<and> set example_edges = set (example_edges @ example_edges)"
    by (auto simp: example_delta_def example_delta_reordered_def)
  have h2: "edges_within (run_entities ''r1'' example_delta) example_edges
      \<and> converged (label_propagation ''r1'' 30 example_delta example_edges)"
    using example_edges_within by (simp add: example_run)
  note T = label_propagation_deterministic_min[of example_delta example_delta_reordered
      example_edges "example_edges @ example_edges" "''r1''" 30]
  have a: "set (lp_labels (label_propagation ''r1'' 30 example_delta example_edges))
     = set (lp_labels (label_propagation ''r1'' 30 example_delta_reordered
              (example_edges @ example_edges)))"
    using T[THEN conjunct1, THEN mp, OF h1] by simp
  have "\<forall>r\<in>set (lp_labels (label_propagation ''r1'' 30 example_delta example_edges)).
      snd r = Min (component example_edges (fst r))"
    using T[THEN conjunct2, THEN mp, OF h2] by simp
  then have "Min (component example_edges ''B:2'') = ''A:1''"
    by (simp add: example_run)
  with a show ?thesis by simp
qed

lemma example_after_1:
  "labels_after (Suc 0) ''r1'' example_delta example_edges
     = [(''C:3'', ''C:3''), (''B:2'', ''A:1''), (''A:1'', ''A:1'')]"
  by code_simp

lemma example_after_2:
  "labels_after (Suc (Suc 0)) ''r1'' example_delta example_edges
     = [(''C:3'', ''C:3''), (''B:2'', ''A:1''), (''A:1'', ''A:1'')]"
  by code_simp

text \<open>
  In the example the first iteration gives \<open>B:2\<close> the label \<open>A:1\<close>, which is at most
  \<open>B:2\<close> and a key of its component; the second iteration changes nothing, so the table
  after five iterations holds the same rows.
\<close>

theorem label_propagation_invariant_witness:
  "''A:1'' \<le> ''B:2'' \<and> ''A:1'' \<in> component example_edges ''B:2''
   \<and> set (labels_after 5 ''r1'' example_delta example_edges)
       = set [(''C:3'', ''C:3''), (''B:2'', ''A:1''), (''A:1'', ''A:1'')]"
proof -
  note T = label_propagation_invariant[of "''r1''" example_delta example_edges "Suc 0" 30,
      THEN mp, OF example_edges_within]
  have mem: "(''B:2'', ''A:1'') \<in> set (labels_after (Suc 0) ''r1'' example_delta example_edges)"
    unfolding example_after_1 by simp
  have a: "''A:1'' \<le> ''B:2'' \<and> ''A:1'' \<in> component example_edges ''B:2''"
    using T[THEN conjunct1, THEN bspec, OF mem] by simp
  have ch: "changes (labels_after (Suc 0) ''r1'' example_delta example_edges)
      (labels_after (Suc (Suc 0)) ''r1'' example_delta example_edges) = 0"
    unfolding example_after_1 example_after_2 by code_simp
  have le: "Suc 0 \<le> 5" by simp
  have "set (labels_after 5 ''r1'' example_delta example_edges)
      = set (labels_after (Suc 0) ''r1'' example_delta example_edges)"
    by (rule T[THEN conjunct2, THEN conjunct2, THEN conjunct1, THEN mp, OF ch,
          THEN spec, THEN mp, OF le])
  then have b: "set (labels_after 5 ''r1'' example_delta example_edges)
       = set [(''C:3'', ''C:3''), (''B:2'', ''A:1''), (''A:1'', ''A:1'')]"
    unfolding example_after_1 .
  show ?thesis using a b by (rule conjI[THEN iffD1[OF conj_assoc]])
qed

section \<open>Edge construction: theorems\<close>

lemma filter_eq_distinct:
  "distinct xs \<Longrightarrow> filter (\<lambda>x. x = a \<and> R x) xs = (if a \<in> set xs \<and> R a then [a] else [])"
  by (induction xs) auto

lemma aggregate_group_simps:
  "group_identifier_type (aggregate_group ids g) = fst g"
  "group_identifier_value_norm (aggregate_group ids g) = snd g"
  "group_size (aggregate_group ids g) = length (group_rows ids g)"
  "anchor_key (aggregate_group ids g) = Min (set (map entity_key (group_rows ids g)))"
  "max_allowed (aggregate_group ids g) = Max (set (map max_group_size (group_rows ids g)))"
  by (simp_all add: aggregate_group_def Let_def)

lemma matching_valid_groups:
  assumes "i \<in> set ids"
  shows "filter (\<lambda>g. identifier_type i = group_identifier_type g
                     \<and> identifier_value_norm i = group_identifier_value_norm g
                     \<and> entity_key i \<noteq> anchor_key g)
            (valid_groups ids)
     = (if group_valid ids (group_key i)
           \<and> entity_key i \<noteq> Min (set (map entity_key (group_rows ids (group_key i))))
        then [aggregate_group ids (group_key i)] else [])"
proof -
  let ?keys = "remdups (map group_key ids)"
  let ?R = "\<lambda>g. group_valid ids g \<and> entity_key i \<noteq> Min (set (map entity_key (group_rows ids g)))"
  have mem: "group_key i \<in> set ?keys" using assms by simp
  have "filter (\<lambda>g. identifier_type i = group_identifier_type g
                     \<and> identifier_value_norm i = group_identifier_value_norm g
                     \<and> entity_key i \<noteq> anchor_key g)
            (valid_groups ids)
      = map (aggregate_group ids) (filter (\<lambda>g. g = group_key i \<and> ?R g) ?keys)"
    unfolding valid_groups_def identifier_groups_def filter_map filter_filter comp_def
    by (rule arg_cong[where f = "map (aggregate_group ids)"], rule filter_cong)
       (auto simp: aggregate_group_simps group_valid_def group_key_def)
  also have "filter (\<lambda>g. g = group_key i \<and> ?R g) ?keys
      = (if group_key i \<in> set ?keys \<and> ?R (group_key i) then [group_key i] else [])"
    by (rule filter_eq_distinct) simp
  finally show ?thesis using mem by simp
qed

lemma build_edges_query_rows:
  "build_edges_query ids =
     concat (map (\<lambda>i.
        if group_valid ids (group_key i)
           \<and> entity_key i \<noteq> Min (set (map entity_key (group_rows ids (group_key i))))
        then [anchor_edge (Min (set (map entity_key (group_rows ids (group_key i))))) i]
        else []) ids)"
  unfolding build_edges_query_def
  by (rule arg_cong[where f = concat], rule map_cong[OF refl])
     (simp add: matching_valid_groups aggregate_group_simps anchor_edge_def)

lemma edges_of_group_concat:
  "edges_of_group (concat xss) g = concat (map (\<lambda>xs. edges_of_group xs g) xss)"
  by (induction xss) (simp_all add: edges_of_group_def)

lemma concat_map_if:
  "concat (map (\<lambda>i. if P i then [f i] else []) xs) = map f (filter P xs)"
  by (induction xs) simp_all

lemma edges_of_group_query:
  "edges_of_group (build_edges_query ids) g =
     (if group_valid ids g
      then map (anchor_edge (Min (set (map entity_key (group_rows ids g)))))
             (filter (\<lambda>i. entity_key i \<noteq> Min (set (map entity_key (group_rows ids g))))
                (group_rows ids g))
      else [])"
proof -
  let ?a = "Min (set (map entity_key (group_rows ids g)))"
  have "edges_of_group (build_edges_query ids) g
      = concat (map (\<lambda>i. if group_key i = g \<and> group_valid ids g \<and> entity_key i \<noteq> ?a
                          then [anchor_edge ?a i] else []) ids)"
    unfolding build_edges_query_rows edges_of_group_concat map_map comp_def
    by (rule arg_cong[where f = concat], rule map_cong[OF refl])
       (auto simp: edges_of_group_def anchor_edge_def group_key_def)
  also have "\<dots> = map (anchor_edge ?a)
      (filter (\<lambda>i. group_key i = g \<and> group_valid ids g \<and> entity_key i \<noteq> ?a) ids)"
    by (rule concat_map_if)
  also have "\<dots> = (if group_valid ids g
      then map (anchor_edge ?a) (filter (\<lambda>i. entity_key i \<noteq> ?a) (group_rows ids g)) else [])"
    by (simp add: group_rows_def conj_commute)
  finally show ?thesis .
qed

lemma length_filter_neq_distinct:
  "distinct (map f xs) \<Longrightarrow> a \<in> f ` set xs
    \<Longrightarrow> length (filter (\<lambda>x. f x \<noteq> a) xs) = length xs - 1"
proof (induction xs)
  case Nil
  then show ?case by simp
next
  case (Cons x xs)
  show ?case
  proof (cases "f x = a")
    case True
    then have "a \<notin> f ` set xs" using Cons.prems(1) by auto
    then have "filter (\<lambda>x. f x \<noteq> a) xs = xs" by (auto simp: filter_id_conv)
    then show ?thesis using True by simp
  next
    case False
    then have a: "a \<in> f ` set xs" using Cons.prems(2) by auto
    then have "xs \<noteq> []" by auto
    then have "length xs > 0" by simp
    then show ?thesis using False Cons.IH[OF _ a] Cons.prems(1) by simp
  qed
qed

lemma skipped_query_member:
  assumes "group_rows ids g \<noteq> []"
    and "int (length (group_rows ids g)) > Max (set (map max_group_size (group_rows ids g)))"
  shows "\<lparr> skipped_run_id = run_id,
           skipped_identifier_type = fst g,
           skipped_identifier_value_norm = snd g,
           skipped_group_size = length (group_rows ids g),
           skipped_max_allowed = Max (set (map max_group_size (group_rows ids g))),
           sample_entity_keys = '''',
           reason = ''EXCEEDED_MAX_GROUP_SIZE'',
           skipped_at = now \<rparr> \<in> set (skipped_query run_id now ids)"
proof -
  obtain i where "i \<in> set ids" "group_key i = g"
    using assms(1) by (auto simp: group_rows_def filter_empty_conv)
  then have "g \<in> set (remdups (map group_key ids))" by auto
  then show ?thesis
    using assms(2) unfolding skipped_query_def
    by (auto simp: aggregate_group_simps image_iff intro!: bexI[where x = g])
qed

lemma build_edges_fields:
  "edges_new (snd (build_edges run_id now st)) = build_edges_query (identifiers_all st)"
  "skipped_identifier_groups (snd (build_edges run_id now st)) =
     (if skipped_insert_succeeds st
      then skipped_identifier_groups st @ skipped_query run_id now (identifiers_all st)
      else skipped_identifier_groups st)"
  "fst (build_edges run_id now st) = length (build_edges_query (identifiers_all st))"
  by (simp_all add: build_edges_def Let_def)

text \<open>
  C2, as the code has it.  Take an identifier group of \<open>k > 1\<close> rows whose entity keys are
  pairwise distinct, and let the anchor be the minimum entity key of the group.  If \<open>k\<close> is
  at most the group's maximum allowed size, \<open>build_edges\<close> creates for the group exactly
  one edge from every row that is not the anchor's to the anchor, \<open>k - 1\<close> edges in all.  If
  \<open>k\<close> exceeds it, no edge is created for the group; the group is appended to the audit
  table with its size and the reason \<open>EXCEEDED_MAX_GROUP_SIZE\<close> when the engine executes
  the audit INSERT, and the audit table is left as it was when the INSERT fails.
\<close>

theorem build_edges_star_or_skip:
  assumes "G = group_rows (identifiers_all st) (t, v)"
    and "length G > 1"
    and "distinct (map entity_key G)"
    and "st' = snd (build_edges run_id now st)"
    and "anchor = Min (set (map entity_key G))"
    and "m = Max (set (map max_group_size G))"
  shows "(int (length G) \<le> m \<longrightarrow>
           edges_of_group (edges_new st') (t, v)
             = map (\<lambda>i. \<lparr> left_entity_key = entity_key i, right_entity_key = anchor,
                          edge_identifier_type = t, edge_identifier_value_norm = v \<rparr>)
                 (filter (\<lambda>i. entity_key i \<noteq> anchor) G)
           \<and> length (edges_of_group (edges_new st') (t, v)) = length G - 1)
       \<and> (int (length G) > m \<longrightarrow>
           edges_of_group (edges_new st') (t, v) = []
           \<and> (if skipped_insert_succeeds st
              then \<lparr> skipped_run_id = run_id, skipped_identifier_type = t,
                     skipped_identifier_value_norm = v, skipped_group_size = length G,
                     skipped_max_allowed = m, sample_entity_keys = '''',
                     reason = ''EXCEEDED_MAX_GROUP_SIZE'', skipped_at = now \<rparr>
                   \<in> set (skipped_identifier_groups st')
              else skipped_identifier_groups st' = skipped_identifier_groups st))"
proof (intro conjI impI)
  let ?ids = "identifiers_all st"
  have E: "edges_new st' = build_edges_query ?ids"
    using assms(4) by (simp add: build_edges_fields)
  have anchor_in: "anchor \<in> entity_key ` set G"
  proof -
    have "set (map entity_key G) \<noteq> {}" using assms(2) by auto
    then have "Min (set (map entity_key G)) \<in> set (map entity_key G)"
      by (intro Min_in) simp_all
    then show ?thesis using assms(5) by simp
  qed
  have same: "map (anchor_edge anchor) (filter (\<lambda>i. entity_key i \<noteq> anchor) G)
      = map (\<lambda>i. \<lparr> left_entity_key = entity_key i, right_entity_key = anchor,
                   edge_identifier_type = t, edge_identifier_value_norm = v \<rparr>)
          (filter (\<lambda>i. entity_key i \<noteq> anchor) G)"
    by (rule map_cong[OF refl])
       (auto simp: anchor_edge_def assms(1) group_rows_def group_key_def)
  {
    assume le: "int (length G) \<le> m"
    then have valid: "group_valid ?ids (t, v)"
      using assms(1,2,6) by (simp add: group_valid_def)
    show eq: "edges_of_group (edges_new st') (t, v)
        = map (\<lambda>i. \<lparr> left_entity_key = entity_key i, right_entity_key = anchor,
                     edge_identifier_type = t, edge_identifier_value_norm = v \<rparr>)
            (filter (\<lambda>i. entity_key i \<noteq> anchor) G)"
      unfolding E edges_of_group_query using valid same assms(1,5) by simp
    show "length (edges_of_group (edges_new st') (t, v)) = length G - 1"
      unfolding eq using length_filter_neq_distinct[OF assms(3) anchor_in] by simp
  }
  {
    assume gt: "int (length G) > m"
    then have invalid: "\<not> group_valid ?ids (t, v)"
      using assms(1,6) by (simp add: group_valid_def)
    show "edges_of_group (edges_new st') (t, v) = []"
      unfolding E edges_of_group_query using invalid by simp
    have ne: "group_rows ?ids (t, v) \<noteq> []" using assms(1,2) by auto
    have row: "\<lparr> skipped_run_id = run_id, skipped_identifier_type = t,
                 skipped_identifier_value_norm = v, skipped_group_size = length G,
                 skipped_max_allowed = m, sample_entity_keys = '''',
                 reason = ''EXCEEDED_MAX_GROUP_SIZE'', skipped_at = now \<rparr>
               \<in> set (skipped_query run_id now ?ids)"
      using skipped_query_member[OF ne, of run_id now] gt assms(1,6) by simp
    show "if skipped_insert_succeeds st
          then \<lparr> skipped_run_id = run_id, skipped_identifier_type = t,
                 skipped_identifier_value_norm = v, skipped_group_size = length G,
                 skipped_max_allowed = m, sample_entity_keys = '''',
                 reason = ''EXCEEDED_MAX_GROUP_SIZE'', skipped_at = now \<rparr>
               \<in> set (skipped_identifier_groups st')
          else skipped_identifier_groups st' = skipped_identifier_groups st"
      using row assms(4) by (simp add: build_edges_fields)
  }
qed

lemma pair_facts:
  "group_rows (identifiers_all (store_with pair_ids ok)) (''EMAIL'', ''x@y.com'') = pair_ids"
  "length pair_ids = 2" "distinct (map entity_key pair_ids)"
  "Min (set (map entity_key pair_ids)) = ''A:1''"
  "Max (set (map max_group_size pair_ids)) = 10000"
  by (simp_all add: store_with_def pair_ids_def group_rows_def group_key_def)

lemma hub_facts:
  "group_rows (identifiers_all (store_with hub_ids ok)) (''EMAIL'', ''support@x.com'') = hub_ids"
  "length hub_ids = 3" "distinct (map entity_key hub_ids)"
  "Max (set (map max_group_size hub_ids)) = 2"
  by (simp_all add: store_with_def hub_ids_def group_rows_def group_key_def)

text \<open>
  Two entities sharing an address under \<open>max_group_size = 10000\<close> give the one edge from
  \<open>B:2\<close> to the anchor \<open>A:1\<close>; the hub of three under \<open>max_group_size = 2\<close> gives no
  edge and, when the engine executes the audit INSERT, one audit row.
\<close>

theorem build_edges_star_or_skip_witness:
  "edges_of_group
     (edges_new (snd (build_edges ''r1'' 7 (store_with pair_ids True))))
     (''EMAIL'', ''x@y.com'')
     = [\<lparr> left_entity_key = ''B:2'', right_entity_key = ''A:1'',
           edge_identifier_type = ''EMAIL'', edge_identifier_value_norm = ''x@y.com'' \<rparr>]
   \<and> edges_of_group
     (edges_new (snd (build_edges ''r1'' 7 (store_with hub_ids True))))
     (''EMAIL'', ''support@x.com'') = []
   \<and> \<lparr> skipped_run_id = ''r1'', skipped_identifier_type = ''EMAIL'',
         skipped_identifier_value_norm = ''support@x.com'', skipped_group_size = 3,
         skipped_max_allowed = 2, sample_entity_keys = [],
         reason = ''EXCEEDED_MAX_GROUP_SIZE'', skipped_at = 7 \<rparr>
       \<in> set (skipped_identifier_groups
           (snd (build_edges ''r1'' 7 (store_with hub_ids True))))"
proof -
  have p1: "pair_ids = group_rows (identifiers_all (store_with pair_ids True)) (''EMAIL'', ''x@y.com'')"
    by (simp add: pair_facts)
  have p2: "length pair_ids > 1" by (simp add: pair_facts)
  note P = build_edges_star_or_skip[OF p1 p2 pair_facts(3) refl refl refl,
      of "''r1''" 7]
  have ple: "int (length pair_ids) \<le> Max (set (map max_group_size pair_ids))"
    unfolding pair_facts(2,5) by simp
  have a: "edges_of_group
     (edges_new (snd (build_edges ''r1'' 7 (store_with pair_ids True)))) (''EMAIL'', ''x@y.com'')
     = [\<lparr> left_entity_key = ''B:2'', right_entity_key = ''A:1'',
           edge_identifier_type = ''EMAIL'', edge_identifier_value_norm = ''x@y.com'' \<rparr>]"
    using P[THEN conjunct1, THEN mp, OF ple, THEN conjunct1]
    unfolding pair_facts(4) by (simp add: pair_ids_def)
  have h1: "hub_ids = group_rows (identifiers_all (store_with hub_ids True))
      (''EMAIL'', ''support@x.com'')"
    by (simp add: hub_facts)
  have h2: "length hub_ids > 1" by (simp add: hub_facts)
  note H = build_edges_star_or_skip[OF h1 h2 hub_facts(3) refl refl refl,
      of "''r1''" 7]
  have hgt: "int (length hub_ids) > Max (set (map max_group_size hub_ids))"
    unfolding hub_facts(2,4) by simp
  have acc: "skipped_insert_succeeds (store_with hub_ids True)"
    by (simp add: store_with_def)
  have b: "edges_of_group
     (edges_new (snd (build_edges ''r1'' 7 (store_with hub_ids True))))
     (''EMAIL'', ''support@x.com'') = []"
    using H[THEN conjunct2, THEN mp, OF hgt, THEN conjunct1] .
  have c: "\<lparr> skipped_run_id = ''r1'', skipped_identifier_type = ''EMAIL'',
         skipped_identifier_value_norm = ''support@x.com'', skipped_group_size = 3,
         skipped_max_allowed = 2, sample_entity_keys = [],
         reason = ''EXCEEDED_MAX_GROUP_SIZE'', skipped_at = 7 \<rparr>
       \<in> set (skipped_identifier_groups
           (snd (build_edges ''r1'' 7 (store_with hub_ids True))))"
    using H[THEN conjunct2, THEN mp, OF hgt, THEN conjunct2] acc
    unfolding hub_facts(2,4) by simp
  from a b c show ?thesis by simp
qed

text \<open>
  The claim as stated fails.  When the engine refuses the audit INSERT (the table is absent,
  or lacks a column the INSERT names, as the table \<open>schema_defs.py\<close> declares does), the
  exception is swallowed and the hub of three under \<open>max_group_size = 2\<close> gets no edge and
  is not recorded.  And a group of two rows of the same entity, within its maximum size,
  gets no edge at all.
\<close>

theorem build_edges_skip_not_recorded:
  "length (group_rows hub_ids (''EMAIL'', ''support@x.com'')) = 3
   \<and> Max (set (map max_group_size hub_ids)) = 2
   \<and> edges_new (snd (build_edges ''r1'' 7 (store_with hub_ids False))) = []
   \<and> skipped_identifier_groups (snd (build_edges ''r1'' 7 (store_with hub_ids False))) = []
   \<and> length (group_rows repeated_ids (''EMAIL'', ''x@y.com'')) = 2
   \<and> Max (set (map max_group_size repeated_ids)) = 10000
   \<and> edges_new
        (snd (build_edges ''r1'' 7 (store_with repeated_ids True))) = []"
  by code_simp

text \<open>
  Both ends of every edge \<open>build_edges\<close> creates are entity keys of \<open>identifiers_all\<close>:
  the graph that label propagation receives joins entities of the run.
\<close>

lemma build_edges_query_within:
  "edges_within (entity_key ` set ids) (build_edges_query ids)"
proof -
  have "Min (set (map entity_key (group_rows ids (group_key i)))) \<in> entity_key ` set ids"
    if "i \<in> set ids" for i
  proof -
    have "i \<in> set (group_rows ids (group_key i))" using that by (simp add: group_rows_def)
    then have "set (map entity_key (group_rows ids (group_key i))) \<noteq> {}" by auto
    then have "Min (set (map entity_key (group_rows ids (group_key i))))
        \<in> set (map entity_key (group_rows ids (group_key i)))"
      by (intro Min_in) simp_all
    then show ?thesis by (auto simp: group_rows_def)
  qed
  then show ?thesis
    unfolding edges_within_def build_edges_query_rows
    by (auto simp: anchor_edge_def split: if_splits)
qed

lemma edges_within_mono: "V \<subseteq> W \<Longrightarrow> edges_within V es \<Longrightarrow> edges_within W es"
  by (auto simp: edges_within_def)

text \<open>
  So when the entity keys of \<open>identifiers_all\<close> are entities of the run, as the join of the
  extraction with \<open>entities_delta\<close> makes them, the edges handed to label propagation
  join entities of the run.
\<close>

lemma build_edges_within_run:
  assumes "entity_key ` set (identifiers_all st) \<subseteq> run_entities this_run delta"
  shows "edges_within (run_entities this_run delta) (edges_new (snd (build_edges this_run now st)))"
  unfolding build_edges_fields
  by (rule edges_within_mono[OF assms build_edges_query_within])

section \<open>Fuzzy matching: theorems\<close>

lemma build_profile_distinct: "distinct (map fst (build_profile cas refs))"
  by (simp add: build_profile_def Let_def comp_def)

lemma profile_with_bk_fst:
  "map fst (profile_with_bk blocking profile) = filter (\<lambda>p. blocking p \<noteq> None) profile"
  by (induction profile) (auto simp: profile_with_bk_def split: option.splits)

lemma profile_with_bk_mem:
  "(p, bk) \<in> set (profile_with_bk blocking profile) \<longleftrightarrow> p \<in> set profile \<and> blocking p = Some bk"
  by (auto simp: profile_with_bk_def split: option.splits)

lemma profile_with_bk_distinct:
  assumes "distinct (map fst profile)"
  shows "distinct (profile_with_bk blocking profile)"
proof -
  have "distinct profile" using assms by (rule distinct_map[THEN iffD1, THEN conjunct1])
  then have "distinct (map fst (profile_with_bk blocking profile))"
    unfolding profile_with_bk_fst by simp
  then show ?thesis by (rule distinct_map[THEN iffD1, THEN conjunct1])
qed

lemma valid_blocks_alt:
  "valid_blocks pwb
     = filter (\<lambda>bk. length (filter (\<lambda>r. snd r = bk) pwb) \<le> max_block_size)
         (remdups (map snd pwb))"
  by (simp add: valid_blocks_def block_sizes_def filter_map comp_def)

lemma valid_blocks_distinct: "distinct (valid_blocks pwb)"
  unfolding valid_blocks_alt by simp

lemma valid_blocks_mem:
  "k \<in> set (valid_blocks pwb) \<longleftrightarrow>
     k \<in> snd ` set pwb \<and> length (filter (\<lambda>r. snd r = k) pwb) \<le> max_block_size"
  unfolding valid_blocks_alt by simp

lemma filter_singleton:
  "distinct xs \<Longrightarrow> x \<in> set xs \<Longrightarrow> filter (\<lambda>t. t = x) xs = [x]"
  by (induction xs) (auto simp: filter_empty_conv)

lemma profile_row_unique:
  assumes "distinct (map fst profile)" "p \<in> set profile" "q \<in> set profile" "fst p = fst q"
  shows "p = q"
  using assms by (metis eq_key_imp_eq_value prod.collapse)

text \<open>The one comparison of two clusters of a valid block.\<close>

lemma comparisons_once:
  assumes dist: "distinct (map fst profile)"
    and pwb: "pwb = profile_with_bk blocking profile"
    and a: "a \<in> set profile" and b: "b \<in> set profile"
    and ka: "blocking a = Some k" and kb: "blocking b = Some k"
    and size: "length (filter (\<lambda>r. snd r = k) pwb) \<le> max_block_size"
    and less: "md5 (fst a) < md5 (fst b)"
  shows "comparisons_of (fst a) (fst b) (scored_pairs md5 score pwb)
     = [(fst a, fst b, score (a, k) (b, k))]"
proof -
  let ?triples = "List.product pwb (List.product pwb (valid_blocks pwb))"
  let ?Q = "\<lambda>t. snd (fst t) = snd (fst (snd t))
                   \<and> md5 (fst (fst (fst t))) < md5 (fst (fst (fst (snd t))))
                   \<and> snd (fst t) = snd (snd t)"
  let ?g = "\<lambda>t. (fst (fst (fst t)), fst (fst (fst (snd t))), score (fst t) (fst (snd t)))"
  let ?P = "\<lambda>p. (fst p = fst a \<and> fst (snd p) = fst b) \<or> (fst p = fst b \<and> fst (snd p) = fst a)"
  let ?T = "((a, k), (b, k), k)"
  have A: "(a, k) \<in> set pwb" and B: "(b, k) \<in> set pwb"
    using a b ka kb by (simp_all add: pwb profile_with_bk_mem)
  have "k \<in> snd ` set pwb" using A by force
  then have K: "k \<in> set (valid_blocks pwb)"
    unfolding valid_blocks_mem using size by simp
  have T: "?T \<in> set ?triples" using A B K by simp
  have dT: "distinct ?triples"
    using profile_with_bk_distinct[OF dist, of blocking] valid_blocks_distinct[of pwb]
    by (simp add: pwb distinct_product)
  have row: "x = (a, k)" if "x \<in> set pwb" "fst (fst x) = fst a" for x
  proof -
    obtain p bk where x: "x = (p, bk)" by (cases x)
    have p: "p \<in> set profile" "blocking p = Some bk"
      using that(1) by (simp_all add: x pwb profile_with_bk_mem)
    have "p = a" using profile_row_unique[OF dist p(1) a] that(2) x by simp
    then show ?thesis using p(2) ka x by simp
  qed
  have rowb: "x = (b, k)" if "x \<in> set pwb" "fst (fst x) = fst b" for x
  proof -
    obtain p bk where x: "x = (p, bk)" by (cases x)
    have p: "p \<in> set profile" "blocking p = Some bk"
      using that(1) by (simp_all add: x pwb profile_with_bk_mem)
    have "p = b" using profile_row_unique[OF dist p(1) b] that(2) x by simp
    then show ?thesis using p(2) kb x by simp
  qed
  have equiv: "(?Q t \<and> ?P (?g t)) = (t = ?T)" if t: "t \<in> set ?triples" for t
  proof
    assume h: "?Q t \<and> ?P (?g t)"
    obtain x y vb where txy: "t = (x, y, vb)" by (cases t) auto
    have xin: "x \<in> set pwb" and yin: "y \<in> set pwb" using t txy by simp_all
    have ids: "(fst (fst x) = fst a \<and> fst (fst y) = fst b)
        \<or> (fst (fst x) = fst b \<and> fst (fst y) = fst a)"
      using h txy by simp
    have lt: "md5 (fst (fst x)) < md5 (fst (fst y))" using h txy by simp
    have "fst (fst x) = fst a \<and> fst (fst y) = fst b"
      using ids lt less by (metis order_less_asym)
    then have "x = (a, k)" "y = (b, k)" using row[OF xin] rowb[OF yin] by simp_all
    moreover have "vb = snd x" using h txy by auto
    ultimately show "t = ?T" using txy by simp
  next
    assume "t = ?T"
    then show "?Q t \<and> ?P (?g t)" using less by simp
  qed
  have "comparisons_of (fst a) (fst b) (scored_pairs md5 score pwb)
      = map ?g (filter (\<lambda>t. ?Q t \<and> ?P (?g t)) ?triples)"
    by (simp only: comparisons_of_def scored_pairs_def filter_map filter_filter comp_def)
  also have "filter (\<lambda>t. ?Q t \<and> ?P (?g t)) ?triples = filter (\<lambda>t. t = ?T) ?triples"
    by (rule filter_cong[OF refl]) (rule equiv)
  also have "\<dots> = [?T]" by (rule filter_singleton[OF dT T])
  finally show ?thesis by simp
qed

lemma above_threshold_mem:
  "(x, y, s) \<in> set (above_threshold threshold pairs) \<longleftrightarrow>
     (x, y, Some s) \<in> set pairs \<and> threshold \<le> s"
proof (induction pairs)
  case Nil
  then show ?case by (simp add: above_threshold_def)
next
  case (Cons p pairs)
  obtain l r v where p: "p = (l, r, v)" by (cases p) auto
  have "above_threshold threshold (p # pairs)
      = (case v of None \<Rightarrow> [] | Some s \<Rightarrow> if s \<ge> threshold then [(l, r, s)] else [])
        @ above_threshold threshold pairs"
    by (cases v) (simp_all add: above_threshold_def p)
  then show ?case using Cons.IH by (cases v) (auto simp: p)
qed

lemma comparisons_of_mem:
  "(x, y, s) \<in> set pairs \<longleftrightarrow> (x, y, s) \<in> set (comparisons_of x y pairs)"
  by (auto simp: comparisons_of_def)

lemma comparisons_of_mem_rev:
  "(y, x, s) \<in> set pairs \<longleftrightarrow> (y, x, s) \<in> set (comparisons_of x y pairs)"
  by (auto simp: comparisons_of_def)

text \<open>
  C4.  Take two distinct clusters of the rule's profile with the same blocking key, in a
  block of at most 10000 rows, and name \<open>a\<close> the one whose resolved id has the smaller
  hash.  The pair is compared exactly once, as (\<open>a\<close>, \<open>b\<close>), and a fuzzy edge between the
  two is inserted exactly when the score is not NULL and at least the threshold: a score
  equal to the threshold gives the edge, a score below it gives none, and there is never an
  edge in the order (\<open>b\<close>, \<open>a\<close>).
\<close>

theorem fuzzy_edge_iff_threshold:
  assumes "profile = build_profile cluster_attributes referenced_attrs"
    and "pwb = profile_with_bk blocking profile"
    and "edges = fuzzy_rule_edges md5 blocking score threshold cluster_attributes referenced_attrs"
    and "a \<in> set profile" and "b \<in> set profile" and "fst a \<noteq> fst b"
    and "blocking a = Some k" and "blocking b = Some k"
    and "length (filter (\<lambda>r. snd r = k) pwb) \<le> max_block_size"
    and "md5 (fst a) < md5 (fst b)"
  shows "comparisons_of (fst a) (fst b) (scored_pairs md5 score pwb)
           = [(fst a, fst b, score (a, k) (b, k))]
    \<and> ((fst a, fst b, s) \<in> set edges \<longleftrightarrow> score (a, k) (b, k) = Some s \<and> threshold \<le> s)
    \<and> (fst b, fst a, s) \<notin> set edges
    \<and> (score (a, k) (b, k) = Some threshold \<longrightarrow> (fst a, fst b, threshold) \<in> set edges)
    \<and> (score (a, k) (b, k) = Some s' \<and> s' < threshold \<longrightarrow>
          (\<forall>v. (fst a, fst b, v) \<notin> set edges \<and> (fst b, fst a, v) \<notin> set edges))"
proof -
  have dist: "distinct (map fst profile)"
    unfolding assms(1) by (rule build_profile_distinct)
  have once: "comparisons_of (fst a) (fst b) (scored_pairs md5 score pwb)
      = [(fst a, fst b, score (a, k) (b, k))]"
    by (rule comparisons_once[OF dist assms(2) assms(4,5) assms(7,8,9,10)])
  have edges: "edges = above_threshold threshold (scored_pairs md5 score pwb)"
    unfolding assms(3) fuzzy_rule_edges_def assms(2) assms(1) ..
  have fwd: "(fst a, fst b, v) \<in> set edges \<longleftrightarrow> score (a, k) (b, k) = Some v \<and> threshold \<le> v" for v
    unfolding edges above_threshold_mem
    using comparisons_of_mem[of "fst a" "fst b" "Some v" "scored_pairs md5 score pwb"] once
    by auto
  have bwd: "(fst b, fst a, v) \<notin> set edges" for v
    unfolding edges above_threshold_mem
    using comparisons_of_mem_rev[of "fst b" "fst a" "Some v" "scored_pairs md5 score pwb"] once
      assms(6)
    by auto
  have eq: "score (a, k) (b, k) = Some threshold \<longrightarrow> (fst a, fst b, threshold) \<in> set edges"
    using fwd[of threshold] by simp
  have below: "score (a, k) (b, k) = Some s' \<and> s' < threshold \<longrightarrow>
      (\<forall>v. (fst a, fst b, v) \<notin> set edges \<and> (fst b, fst a, v) \<notin> set edges)"
    using fwd bwd by auto
  from once fwd[of s] bwd[of s] eq below show ?thesis by blast
qed

lemma example_profile:
  "build_profile example_attributes [''zip'', ''name''] =
     [(''A:1'', [Some ''94105'', Some ''ann'']),
      (''C:33'', [Some ''94105'', Some ''ann'']),
      (''D:4'', [Some ''94105'', Some ''dan''])]"
  by code_simp

text \<open>
  With threshold 1 the clusters \<open>A:1\<close> and \<open>C:33\<close>, whose score is exactly 1, are linked;
  \<open>A:1\<close> and \<open>D:4\<close>, whose score is 1/2, are not.
\<close>

theorem fuzzy_edge_iff_threshold_witness:
  "(''A:1'', ''C:33'', 1) \<in> set (fuzzy_rule_edges example_md5 example_blocking example_score 1
       example_attributes [''zip'', ''name''])
   \<and> (''A:1'', ''D:4'', 1 / 2) \<notin> set (fuzzy_rule_edges example_md5 example_blocking example_score 1
       example_attributes [''zip'', ''name''])"
proof -
  let ?profile = "build_profile example_attributes [''zip'', ''name'']"
  let ?a = "(''A:1'', [Some ''94105'', Some ''ann''])"
  let ?c = "(''C:33'', [Some ''94105'', Some ''ann''])"
  let ?d = "(''D:4'', [Some ''94105'', Some ''dan''])"
  have a: "?a \<in> set ?profile" and c: "?c \<in> set ?profile" and d: "?d \<in> set ?profile"
    by (simp_all add: example_profile)
  have ne: "fst ?a \<noteq> fst ?c" "fst ?a \<noteq> fst ?d" by simp_all
  have bk: "example_blocking ?a = Some ''94105''" "example_blocking ?c = Some ''94105''"
    "example_blocking ?d = Some ''94105''"
    by (simp_all add: example_blocking_def)
  have size: "length (filter (\<lambda>r. snd r = ''94105'') (profile_with_bk example_blocking ?profile))
      \<le> max_block_size"
    unfolding example_profile by code_simp
  have lt: "example_md5 (fst ?a) < example_md5 (fst ?c)"
    "example_md5 (fst ?a) < example_md5 (fst ?d)"
    by code_simp+
  have s1: "example_score (?a, ''94105'') (?c, ''94105'') = Some 1"
    by (simp add: example_score_def)
  have s2: "example_score (?a, ''94105'') (?d, ''94105'') = Some (1 / 2) \<and> (1 / 2 :: rat) < 1"
    by (simp add: example_score_def)
  note T1 = fuzzy_edge_iff_threshold[OF refl refl refl a c ne(1) bk(1) bk(2) size lt(1),
      where score = example_score and threshold = 1]
  note T2 = fuzzy_edge_iff_threshold[OF refl refl refl a d ne(2) bk(1) bk(3) size lt(2),
      where score = example_score and threshold = 1 and s' = "1 / 2"]
  have "example_score (?a, ''94105'') (?c, ''94105'') = Some 1 \<longrightarrow>
      (fst ?a, fst ?c, 1) \<in> set (fuzzy_rule_edges example_md5 example_blocking example_score 1
         example_attributes [''zip'', ''name''])"
    using T1 by blast
  then have x: "(''A:1'', ''C:33'', 1) \<in> set (fuzzy_rule_edges example_md5 example_blocking
      example_score 1 example_attributes [''zip'', ''name''])"
    using s1 by simp
  have "example_score (?a, ''94105'') (?d, ''94105'') = Some (1 / 2) \<and> (1 / 2 :: rat) < 1 \<longrightarrow>
      (\<forall>v. (fst ?a, fst ?d, v) \<notin> set (fuzzy_rule_edges example_md5 example_blocking
          example_score 1 example_attributes [''zip'', ''name''])
        \<and> (fst ?d, fst ?a, v) \<notin> set (fuzzy_rule_edges example_md5 example_blocking
          example_score 1 example_attributes [''zip'', ''name'']))"
    using T2 by blast
  then have "\<forall>v. (fst ?a, fst ?d, v) \<notin> set (fuzzy_rule_edges example_md5 example_blocking
          example_score 1 example_attributes [''zip'', ''name''])"
    using s2 by blast
  then have y: "(''A:1'', ''D:4'', 1 / 2) \<notin> set (fuzzy_rule_edges example_md5 example_blocking
      example_score 1 example_attributes [''zip'', ''name''])"
    by simp
  from x y show ?thesis by simp
qed

section \<open>Preflight and the runner: theorems\<close>

lemma mark_stale_running:
  "filter (\<lambda>r. rh_status r = ''RUNNING'') (mark_stale now rh)
     = filter (\<lambda>r. rh_status r = ''RUNNING'' \<and> \<not> stale now r) rh"
  by (induction rh) (auto simp: mark_stale_def)

lemma length_mark_stale: "length (mark_stale now rh) = length rh"
  by (simp add: mark_stale_def)


lemma preflight_history:
  "run_history (snd (preflight_run now st)) = mark_stale now (run_history st)"
  by (auto simp: preflight_run_def Let_def split: list.splits option.splits)

lemma preflight_concurrent:
  assumes "filter (\<lambda>r. rh_status r = ''RUNNING'' \<and> \<not> stale now r) (run_history st) = q # qs"
  shows "preflight_run now st
     = (Some (RuntimeError [] (ConcurrentRun (rh_run_id q))),
        st\<lparr> run_history := mark_stale now (run_history st) \<rparr>)"
  using assms by (simp add: preflight_run_def Let_def mark_stale_running)

lemma preflight_no_concurrent:
  assumes "filter (\<lambda>r. rh_status r = ''RUNNING'' \<and> \<not> stale now r) (run_history st) = []"
  shows "fst (preflight_run now st) \<noteq> Some (RuntimeError [] (ConcurrentRun rid))"
  using assms
  by (auto simp: preflight_run_def Let_def mark_stale_running split: option.splits)

lemma complete_run_fields:
  "production (snd (complete_run new_id stages s e st)) = production st"
  "length (run_history (snd (complete_run new_id stages s e st))) = length (run_history st)"
  "fst (complete_run new_id stages s e st)
     = \<lparr> result_run_id = new_id, result_status = s, result_error = e \<rparr>"
  by (simp_all add: complete_run_def)

lemma complete_run_own_rows:
  "\<forall>r\<in>set (run_history (snd (complete_run new_id stages s e st))).
      rh_run_id r = new_id \<longrightarrow> rh_status r = s"
proof
  let ?f = "\<lambda>r. if rh_run_id r = new_id
                then r\<lparr> rh_status := s,
                       rh_error_message :=
                         (case e of None \<Rightarrow> rh_error_message r | Some e \<Rightarrow> Some (ErrorText e)) \<rparr>
                else r"
  have h: "run_history (snd (complete_run new_id stages s e st)) = map ?f (run_history st)"
    by (simp add: complete_run_def)
  have P: "rh_run_id (?f x) = new_id \<longrightarrow> rh_status (?f x) = s" for x by simp
  fix r assume "r \<in> set (run_history (snd (complete_run new_id stages s e st)))"
  then have "r \<in> ?f ` set (run_history st)" unfolding h set_map .
  then obtain x where r: "r = ?f x" by (rule imageE)
  show "rh_run_id r = new_id \<longrightarrow> rh_status r = s"
    unfolding r by (rule P)
qed

lemma run_blocked:
  assumes r: "r \<in> set (run_history st)" "rh_status r = ''RUNNING''" "\<not> stale now r"
  shows "\<exists>q \<in> set (run_history st). rh_status q = ''RUNNING'' \<and> \<not> stale now q
      \<and> fst (run new_id run_mode now stages_after st)
          = \<lparr> result_run_id = new_id, result_status = ''FAILED'',
              result_error = Some (RuntimeError [] (ConcurrentRun (rh_run_id q))) \<rparr>
      \<and> production (snd (run new_id run_mode now stages_after st)) = production st
      \<and> length (run_history (snd (run new_id run_mode now stages_after st)))
          = length (run_history st)
      \<and> (\<forall>x\<in>set (run_history (snd (run new_id run_mode now stages_after st))).
            rh_run_id x = new_id \<longrightarrow> rh_status x = ''FAILED'')
      \<and> run new_id run_mode now stages_after st = run new_id run_mode now other_stages st"
proof -
  let ?f = "filter (\<lambda>r. rh_status r = ''RUNNING'' \<and> \<not> stale now r) (run_history st)"
  have "r \<in> set ?f" using r by simp
  then obtain q qs where f: "?f = q # qs" by (cases ?f) auto
  then have "q \<in> set ?f" by simp
  then have q: "q \<in> set (run_history st)" "rh_status q = ''RUNNING''" "\<not> stale now q"
    by simp_all
  have run_eq: "run new_id run_mode now k st
      = complete_run new_id [''preflight''] ''FAILED''
          (Some (RuntimeError [] (ConcurrentRun (rh_run_id q))))
          (st\<lparr> run_history := mark_stale now (run_history st) \<rparr>)" for k
    by (simp add: run_def preflight_concurrent[OF f])
  show ?thesis
    using q unfolding run_eq
    by (intro bexI[where x = q])
       (simp_all add: complete_run_fields complete_run_own_rows length_mark_stale)
qed

lemma run_proceeds:
  assumes all_stale: "\<forall>r\<in>set (run_history st). rh_status r = ''RUNNING'' \<longrightarrow> stale now r"
  shows "(\<forall>rid. fst (preflight_run now st) \<noteq> Some (RuntimeError [] (ConcurrentRun rid)))
      \<and> run_history (snd (preflight_run now st))
          = map (\<lambda>r. if rh_status r = ''RUNNING''
                     then r\<lparr> rh_status := ''INTERRUPTED'',
                            rh_error_message :=
                              Some (Text ''Run interrupted - stale RUNNING state detected'') \<rparr>
                     else r) (run_history st)
      \<and> (\<forall>r\<in>set (run_history (snd (preflight_run now st))). rh_status r \<noteq> ''RUNNING'')
      \<and> (fst (preflight_run now st) = None \<longrightarrow>
           (\<exists>st1. snd (preflight_run now st) = st1
              \<and> \<lparr> rh_run_id = new_id, rh_run_mode = run_mode, rh_status = ''RUNNING'',
                   rh_started_at = Some now, rh_error_message = None \<rparr>
                 \<in> set (run_history (record_run_start new_id run_mode now st1))
              \<and> run new_id run_mode now stages_after st
                 = (case stages_after (record_run_start new_id run_mode now st1) of
                      (started, Inl e, st2) \<Rightarrow>
                        complete_run new_id (''preflight'' # started) ''FAILED'' (Some e) st2
                    | (started, Inr final_status, st2) \<Rightarrow>
                        complete_run new_id (''preflight'' # started) final_status None st2)))"
proof (intro conjI allI impI)
  have empty: "filter (\<lambda>r. rh_status r = ''RUNNING'' \<and> \<not> stale now r) (run_history st) = []"
    using all_stale by (auto simp: filter_empty_conv)
  show "fst (preflight_run now st) \<noteq> Some (RuntimeError [] (ConcurrentRun rid))" for rid
    by (rule preflight_no_concurrent[OF empty])
  show hist: "run_history (snd (preflight_run now st))
          = map (\<lambda>r. if rh_status r = ''RUNNING''
                     then r\<lparr> rh_status := ''INTERRUPTED'',
                            rh_error_message :=
                              Some (Text ''Run interrupted - stale RUNNING state detected'') \<rparr>
                     else r) (run_history st)"
    unfolding preflight_history mark_stale_def using all_stale by (intro map_cong) auto
  show "\<forall>r\<in>set (run_history (snd (preflight_run now st))). rh_status r \<noteq> ''RUNNING''"
    unfolding hist by auto
  show "\<exists>st1. snd (preflight_run now st) = st1
      \<and> \<lparr> rh_run_id = new_id, rh_run_mode = run_mode, rh_status = ''RUNNING'',
           rh_started_at = Some now, rh_error_message = None \<rparr>
         \<in> set (run_history (record_run_start new_id run_mode now st1))
      \<and> run new_id run_mode now stages_after st
         = (case stages_after (record_run_start new_id run_mode now st1) of
              (started, Inl e, st2) \<Rightarrow>
                complete_run new_id (''preflight'' # started) ''FAILED'' (Some e) st2
            | (started, Inr final_status, st2) \<Rightarrow>
                complete_run new_id (''preflight'' # started) final_status None st2)"
    if "fst (preflight_run now st) = None"
    using that by (cases "preflight_run now st") (simp add: run_def record_run_start_def)
qed

lemma not_stale_iff:
  "rh_started_at r = Some t \<Longrightarrow> (\<not> stale now r) = (now - t \<le> four_hours)"
  by (auto simp: stale_def)

text \<open>
  C7, as the code has it.  When the run-history table holds a RUNNING row that started
  at most 4 hours ago (exactly 4 hours included), the run fails with the concurrency
  error naming a RUNNING run that is not stale; the later stages are never entered, the
  output tables are unchanged, no row is added to the run history and no row of the new
  run is RUNNING.  When every RUNNING row started more than 4 hours ago, preflight marks
  all of them INTERRUPTED and raises no concurrency error; if it raises nothing else, the
  RUNNING row of the new run is inserted and the later stages run on that store.
\<close>

theorem run_concurrency_lease:
  "(r \<in> set (run_history st) \<and> rh_status r = ''RUNNING'' \<and> rh_started_at r = Some t
      \<and> now - t \<le> four_hours \<longrightarrow>
      (\<exists>q \<in> set (run_history st). rh_status q = ''RUNNING'' \<and> \<not> stale now q
        \<and> fst (run new_id run_mode now stages_after st)
            = \<lparr> result_run_id = new_id, result_status = ''FAILED'',
                result_error = Some (RuntimeError [] (ConcurrentRun (rh_run_id q))) \<rparr>
        \<and> production (snd (run new_id run_mode now stages_after st)) = production st
        \<and> length (run_history (snd (run new_id run_mode now stages_after st)))
            = length (run_history st)
        \<and> (\<forall>x\<in>set (run_history (snd (run new_id run_mode now stages_after st))).
              rh_run_id x = new_id \<longrightarrow> rh_status x = ''FAILED'')
        \<and> run new_id run_mode now stages_after st = run new_id run_mode now other_stages st))
   \<and> ((\<forall>r\<in>set (run_history st). rh_status r = ''RUNNING'' \<longrightarrow>
          (\<exists>t. rh_started_at r = Some t \<and> now - t > four_hours)) \<longrightarrow>
      (\<forall>rid. fst (preflight_run now st) \<noteq> Some (RuntimeError [] (ConcurrentRun rid)))
      \<and> run_history (snd (preflight_run now st))
          = map (\<lambda>r. if rh_status r = ''RUNNING''
                     then r\<lparr> rh_status := ''INTERRUPTED'',
                            rh_error_message :=
                              Some (Text ''Run interrupted - stale RUNNING state detected'') \<rparr>
                     else r) (run_history st)
      \<and> (\<forall>r\<in>set (run_history (snd (preflight_run now st))). rh_status r \<noteq> ''RUNNING'')
      \<and> (fst (preflight_run now st) = None \<longrightarrow>
           (\<exists>st1. snd (preflight_run now st) = st1
              \<and> \<lparr> rh_run_id = new_id, rh_run_mode = run_mode, rh_status = ''RUNNING'',
                   rh_started_at = Some now, rh_error_message = None \<rparr>
                 \<in> set (run_history (record_run_start new_id run_mode now st1))
              \<and> run new_id run_mode now stages_after st
                 = (case stages_after (record_run_start new_id run_mode now st1) of
                      (started, Inl e, st2) \<Rightarrow>
                        complete_run new_id (''preflight'' # started) ''FAILED'' (Some e) st2
                    | (started, Inr final_status, st2) \<Rightarrow>
                        complete_run new_id (''preflight'' # started) final_status None st2))))"
proof (rule conjI; rule impI)
  assume a: "r \<in> set (run_history st) \<and> rh_status r = ''RUNNING'' \<and> rh_started_at r = Some t
      \<and> now - t \<le> four_hours"
  then have "\<not> stale now r" by (simp add: not_stale_iff)
  with a show "\<exists>q \<in> set (run_history st). rh_status q = ''RUNNING'' \<and> \<not> stale now q
        \<and> fst (run new_id run_mode now stages_after st)
            = \<lparr> result_run_id = new_id, result_status = ''FAILED'',
                result_error = Some (RuntimeError [] (ConcurrentRun (rh_run_id q))) \<rparr>
        \<and> production (snd (run new_id run_mode now stages_after st)) = production st
        \<and> length (run_history (snd (run new_id run_mode now stages_after st)))
            = length (run_history st)
        \<and> (\<forall>x\<in>set (run_history (snd (run new_id run_mode now stages_after st))).
              rh_run_id x = new_id \<longrightarrow> rh_status x = ''FAILED'')
        \<and> run new_id run_mode now stages_after st = run new_id run_mode now other_stages st"
    by (intro run_blocked) simp_all
next
  assume "\<forall>r\<in>set (run_history st). rh_status r = ''RUNNING'' \<longrightarrow>
          (\<exists>t. rh_started_at r = Some t \<and> now - t > four_hours)"
  then have "\<forall>r\<in>set (run_history st). rh_status r = ''RUNNING'' \<longrightarrow> stale now r"
    by (auto simp: stale_def)
  then show "(\<forall>rid. fst (preflight_run now st) \<noteq> Some (RuntimeError [] (ConcurrentRun rid)))
      \<and> run_history (snd (preflight_run now st))
          = map (\<lambda>r. if rh_status r = ''RUNNING''
                     then r\<lparr> rh_status := ''INTERRUPTED'',
                            rh_error_message :=
                              Some (Text ''Run interrupted - stale RUNNING state detected'') \<rparr>
                     else r) (run_history st)
      \<and> (\<forall>r\<in>set (run_history (snd (preflight_run now st))). rh_status r \<noteq> ''RUNNING'')
      \<and> (fst (preflight_run now st) = None \<longrightarrow>
           (\<exists>st1. snd (preflight_run now st) = st1
              \<and> \<lparr> rh_run_id = new_id, rh_run_mode = run_mode, rh_status = ''RUNNING'',
                   rh_started_at = Some now, rh_error_message = None \<rparr>
                 \<in> set (run_history (record_run_start new_id run_mode now st1))
              \<and> run new_id run_mode now stages_after st
                 = (case stages_after (record_run_start new_id run_mode now st1) of
                      (started, Inl e, st2) \<Rightarrow>
                        complete_run new_id (''preflight'' # started) ''FAILED'' (Some e) st2
                    | (started, Inr final_status, st2) \<Rightarrow>
                        complete_run new_id (''preflight'' # started) final_status None st2)))"
    by (rule run_proceeds)
qed

lemma store_running_history:
  "run_history (store_running d) =
     [\<lparr> rh_run_id = ''run_old'', rh_run_mode = ''FULL'', rh_status = ''RUNNING'',
        rh_started_at = Some (10 * four_hours - d), rh_error_message = None \<rparr>]"
  by (simp add: store_running_def)

text \<open>
  A RUNNING row one microsecond short of 4 hours old blocks the new run with the
  concurrency error naming \<open>run_old\<close>; a RUNNING row one microsecond more than 4 hours
  old is marked INTERRUPTED.
\<close>

theorem run_concurrency_lease_witness:
  "fst (run ''run_new'' ''FULL'' (10 * four_hours) no_stages (store_running (four_hours - 1)))
     = \<lparr> result_run_id = ''run_new'', result_status = ''FAILED'',
         result_error = Some (RuntimeError [] (ConcurrentRun ''run_old'')) \<rparr>
   \<and> production (snd (run ''run_new'' ''FULL'' (10 * four_hours) no_stages
         (store_running (four_hours - 1)))) = ()
   \<and> map rh_status (run_history (snd (preflight_run (10 * four_hours)
         (store_running (four_hours + 1))))) = [''INTERRUPTED'']"
proof -
  let ?now = "10 * four_hours"
  let ?row = "\<lambda>d. \<lparr> rh_run_id = ''run_old'', rh_run_mode = ''FULL'', rh_status = ''RUNNING'',
        rh_started_at = Some (?now - d), rh_error_message = None \<rparr>"
  have h1: "?row (four_hours - 1) \<in> set (run_history (store_running (four_hours - 1)))
      \<and> rh_status (?row (four_hours - 1)) = ''RUNNING''
      \<and> rh_started_at (?row (four_hours - 1)) = Some (?now - (four_hours - 1))
      \<and> ?now - (?now - (four_hours - 1)) \<le> four_hours"
    by (simp add: store_running_history)
  note T1 = run_concurrency_lease[where r = "?row (four_hours - 1)"
      and st = "store_running (four_hours - 1)" and t = "?now - (four_hours - 1)"
      and now = ?now and new_id = "''run_new''" and run_mode = "''FULL''"
      and stages_after = no_stages and other_stages = no_stages,
      THEN conjunct1, THEN mp, OF h1]
  then obtain q where q: "q \<in> set (run_history (store_running (four_hours - 1)))"
    and res: "fst (run ''run_new'' ''FULL'' ?now no_stages (store_running (four_hours - 1)))
            = \<lparr> result_run_id = ''run_new'', result_status = ''FAILED'',
                result_error = Some (RuntimeError [] (ConcurrentRun (rh_run_id q))) \<rparr>"
    and prod: "production (snd (run ''run_new'' ''FULL'' ?now no_stages
         (store_running (four_hours - 1)))) = production (store_running (four_hours - 1))"
    by blast
  have "rh_run_id q = ''run_old''" using q by (auto simp: store_running_history)
  then have a: "fst (run ''run_new'' ''FULL'' ?now no_stages (store_running (four_hours - 1)))
     = \<lparr> result_run_id = ''run_new'', result_status = ''FAILED'',
         result_error = Some (RuntimeError [] (ConcurrentRun ''run_old'')) \<rparr>"
    using res by simp
  have h2: "\<forall>r\<in>set (run_history (store_running (four_hours + 1))).
      rh_status r = ''RUNNING'' \<longrightarrow>
      (\<exists>t. rh_started_at r = Some t \<and> ?now - t > four_hours)"
    by (simp add: store_running_history)
  note T2 = run_concurrency_lease[where st = "store_running (four_hours + 1)"
      and now = ?now, THEN conjunct2, THEN mp, OF h2]
  have "run_history (snd (preflight_run ?now (store_running (four_hours + 1))))
      = map (\<lambda>r. if rh_status r = ''RUNNING''
                 then r\<lparr> rh_status := ''INTERRUPTED'',
                        rh_error_message :=
                          Some (Text ''Run interrupted - stale RUNNING state detected'') \<rparr>
                 else r) (run_history (store_running (four_hours + 1)))"
    using T2 by blast
  then have b: "map rh_status (run_history (snd (preflight_run ?now
         (store_running (four_hours + 1))))) = [''INTERRUPTED'']"
    by (simp add: store_running_history)
  show ?thesis using a b prod by simp
qed

text \<open>
  The claim as stated fails at the boundary: a RUNNING row exactly 4 hours old is not
  marked INTERRUPTED; it stays RUNNING and the new run fails with the concurrency error.
\<close>

theorem run_exactly_four_hours_blocked:
  "map (age (10 * four_hours)) (run_history (store_running four_hours)) = [Some four_hours]
   \<and> fst (run ''run_new'' ''FULL'' (10 * four_hours) no_stages (store_running four_hours))
     = \<lparr> result_run_id = ''run_new'', result_status = ''FAILED'',
         result_error = Some (RuntimeError [] (ConcurrentRun ''run_old'')) \<rparr>
   \<and> map rh_status (run_history
         (snd (run ''run_new'' ''FULL'' (10 * four_hours) no_stages (store_running four_hours))))
     = [''RUNNING'']"
  by code_simp

section \<open>The dry run: theorems\<close>

































end
